theory Spec2Isabelle
  imports Main "HOL-Library.Word" "HOL-Library.Char_ord" "HOL-Library.List_Lexorder"
    "HOL-Library.Code_Target_Nat"
begin

section \<open>The zeno archive reader: \<^verbatim>\<open>src/zenolib/fileimpl.cpp\<close>\<close>

text \<open>
  The embedding follows \<^verbatim>\<open>zeno::FileImpl\<close> member by member. The object is a record
  that every member function takes and returns; an exception is the left injection of a
  sum. The mutex of the class serialises callers and has no effect on a single call, so
  it is left out. Bytes, C++ \<^verbatim>\<open>char\<close>s and the characters of a \<^verbatim>\<open>std::string\<close> are
  \<^typ>\<open>char\<close>; two \<^verbatim>\<open>char\<close>s are compared by their byte value (C++ leaves the
  signedness of \<^verbatim>\<open>char\<close> to the platform; on bytes below 128 both readings agree).
  Indices are natural numbers: the offset table is built from a 32-bit count, and no
  index that the code computes exceeds its length.
\<close>

subsection \<open>Exceptions\<close>

text \<open>
  \<^verbatim>\<open>ZenoFileFormatError\<close> is the only exception the file throws; it carries its message.
  The other two values stand for the places where C++ leaves the behaviour of the file
  undefined: \<^verbatim>\<open>VectorIndexOutOfRange\<close> for an unchecked \<^verbatim>\<open>indexOffsets[i]\<close> with
  \<^verbatim>\<open>i\<close> outside the vector, and \<^verbatim>\<open>BufferOverrun\<close> for a read of more bytes than the
  buffer it is given can hold.
\<close>

datatype error = ZenoFileFormatError string | VectorIndexOutOfRange | BufferOverrun

definition at_index :: "'a list \<Rightarrow> nat \<Rightarrow> error + 'a" where
  "at_index xs i = (if i < length xs then Inr (xs ! i) else Inl VectorIndexOutOfRange)"

subsection \<open>The input stream\<close>

text \<open>
  A \<^verbatim>\<open>std::ifstream\<close> on a file: the file's bytes, the read position, the failure
  state (\<^verbatim>\<open>!stream\<close>) and the count of the last unformatted read (\<^verbatim>\<open>gcount()\<close>).
  Opening a file that does not exist leaves the stream failed. A failed stream ignores
  \<^verbatim>\<open>seekg\<close> and reads nothing; a read that meets the end of the file before
  \<^verbatim>\<open>n\<close> bytes delivers the bytes there are and fails the stream. An offset that is
  negative as a signed 64-bit stream position cannot be sought.
\<close>

record istream =
  content :: "char list"
  pos :: nat
  failbit :: bool
  gcount :: nat

definition ifstream_open :: "(string \<rightharpoonup> char list) \<Rightarrow> string \<Rightarrow> istream" where
  "ifstream_open fs fname =
     (case fs fname of
        None \<Rightarrow> \<lparr>content = [], pos = 0, failbit = True, gcount = 0\<rparr>
      | Some bytes \<Rightarrow> \<lparr>content = bytes, pos = 0, failbit = False, gcount = 0\<rparr>)"

definition seekg :: "64 word \<Rightarrow> istream \<Rightarrow> istream" where
  "seekg off s =
     (if failbit s then s
      else if 0x8000000000000000 \<le> off then s\<lparr>failbit := True\<rparr>
      else s\<lparr>pos := unat off\<rparr>)"

definition stream_read :: "nat \<Rightarrow> istream \<Rightarrow> char list \<times> istream" where
  "stream_read n s =
     (if failbit s then ([], s\<lparr>gcount := 0\<rparr>)
      else
        let bs = take n (drop (pos s) (content s))
        in (bs, s\<lparr>pos := pos s + length bs, gcount := length bs, failbit := length bs < n\<rparr>))"

subsection \<open>Little-endian integers and decimal output\<close>

text \<open>
  Modelled from the spec: \<^verbatim>\<open>fromLittleEndian\<close> is declared outside
  \<^verbatim>\<open>fileimpl.cpp\<close>; the spec has it read a fixed-width little-endian unsigned integer
  from a byte buffer. The caller passes the bytes of the field.
\<close>

definition fromLittleEndian :: "char list \<Rightarrow> 'a::len word" where
  "fromLittleEndian bs = foldr (\<lambda>b acc. of_char b + 256 * acc) bs 0"

text \<open>\<^verbatim>\<open>ostream << unsigned\<close>: the decimal digits of a number.\<close>

fun showNat :: "nat \<Rightarrow> string" where
  "showNat n =
     (if n < 10 then [char_of (48 + n)]
      else showNat (n div 10) @ [char_of (48 + n mod 10)])"

declare showNat.simps [simp del]

subsection \<open>The object\<close>

text \<open>
  \<^verbatim>\<open>size_type\<close> is the 32-bit unsigned type of counts and \<^verbatim>\<open>offset_type\<close> the 64-bit
  unsigned type of file offsets (the widths of the header fields read below).
\<close>

type_synonym size_type = "32 word"
type_synonym offset_type = "64 word"

record FileImpl =
  zenoFile :: istream
  filename :: string
  indexOffsets :: "offset_type list"
  namespaces :: string

text \<open>
  Modelled from the spec: \<^verbatim>\<open>getCountArticles\<close> is defined in the class declaration,
  which is not in \<^verbatim>\<open>fileimpl.cpp\<close>; the spec's article count is the length of the
  offset table.
\<close>

definition getCountArticles :: "FileImpl \<Rightarrow> nat" where
  "getCountArticles f = length (indexOffsets f)"

subsection \<open>The constructor\<close>

definition headerSize :: nat where
  "headerSize = 0x3c"

text \<open>The bytes of one header field: \<^verbatim>\<open>header + off\<close>, read at the field's width.\<close>

definition field :: "nat \<Rightarrow> nat \<Rightarrow> char list \<Rightarrow> char list" where
  "field off width header = take width (drop off header)"

definition rMagic :: "char list \<Rightarrow> size_type" where
  "rMagic header = fromLittleEndian (field 0x0 4 header)"

definition rVersion :: "char list \<Rightarrow> size_type" where
  "rVersion header = fromLittleEndian (field 0x4 4 header)"

definition rCount :: "char list \<Rightarrow> size_type" where
  "rCount header = fromLittleEndian (field 0x8 4 header)"

definition rIndexPos :: "char list \<Rightarrow> offset_type" where
  "rIndexPos header = fromLittleEndian (field 0x10 8 header)"

definition rIndexPtrPos :: "char list \<Rightarrow> offset_type" where
  "rIndexPtrPos header = fromLittleEndian (field 0x20 8 header)"

definition rIndexPtrLen :: "char list \<Rightarrow> size_type" where
  "rIndexPtrLen header = fromLittleEndian (field 0x28 4 header)"

text \<open>
  \<^verbatim>\<open>std::vector<size_type> buffer(rCount)\<close> is \<^verbatim>\<open>4 * rCount\<close> zero bytes, and
  \<^verbatim>\<open>zenoFile.read(&buffer[0], rIndexPtrLen)\<close> overwrites its front with the bytes the
  read delivers. The source does not compare \<^verbatim>\<open>rIndexPtrLen\<close> with the size of the
  vector: with \<^verbatim>\<open>rIndexPtrLen > 4 * rCount\<close> the call asks the stream to store more
  bytes than the vector holds, which is \<^verbatim>\<open>BufferOverrun\<close> in the constructor below.
  Otherwise the bytes delivered fit, and \<open>fill_buffer\<close> is the vector after the read.
  The result of the read is not tested.
\<close>

definition fill_buffer :: "nat \<Rightarrow> char list \<Rightarrow> char list" where
  "fill_buffer count bs = bs @ drop (length bs) (replicate (4 * count) (CHR 0x00))"

definition buffer_elem :: "char list \<Rightarrow> nat \<Rightarrow> char list" where
  "buffer_elem buffer i = take 4 (drop (4 * i) buffer)"

definition FileImpl_ctor :: "(string \<rightharpoonup> char list) \<Rightarrow> string \<Rightarrow> error + FileImpl" where
  "FileImpl_ctor fs fname =
     (let zf = ifstream_open fs fname in
      if failbit zf
      then Inl (ZenoFileFormatError (''can't open zeno-file '' @ [CHR 0x22] @ fname @ [CHR 0x22]))
      else
        let (header, zf1) = stream_read headerSize zf in
        if failbit zf1 \<or> gcount zf1 \<noteq> headerSize
        then Inl (ZenoFileFormatError ''format-error: header too short in zeno-file'')
        else if rMagic header \<noteq> 1439867043
        then Inl (ZenoFileFormatError
               (''invalid magic number '' @ showNat (unat (rMagic header))
                  @ '' found - 1439867043 expected''))
        else if rVersion header \<noteq> 3
        then Inl (ZenoFileFormatError
               (''invalid zenofile version '' @ showNat (unat (rVersion header))
                  @ '' found - 3 expected''))
        else
          let zf2 = seekg (rIndexPtrPos header) zf1 in
          if 4 * unat (rCount header) < unat (rIndexPtrLen header) then Inl BufferOverrun
          else
            let (bs, zf3) = stream_read (unat (rIndexPtrLen header)) zf2;
                buffer = fill_buffer (unat (rCount header)) bs
            in Inr \<lparr>zenoFile = zf3,
                    filename = fname,
                    indexOffsets =
                      map (\<lambda>i. rIndexPos header
                                + ucast (fromLittleEndian (buffer_elem buffer i) :: size_type))
                          [0..<unat (rCount header)],
                    namespaces = []\<rparr>)"

subsection \<open>Directory entries\<close>

text \<open>
  The class \<^verbatim>\<open>Dirent\<close> and the string class \<^verbatim>\<open>QUnicodeString\<close> are declared outside
  \<^verbatim>\<open>fileimpl.cpp\<close>. Their members that the file calls are parameters of the model: the
  constructor from the 26 header bytes, the accessors, \<^verbatim>\<open>setExtra\<close>, and the two
  three-way title comparisons. Titles are byte strings.
\<close>

record 'd dirent_ops =
  Dirent :: "char list \<Rightarrow> 'd"
  getExtraLen :: "'d \<Rightarrow> nat"
  setExtra :: "char list \<Rightarrow> 'd \<Rightarrow> 'd"
  getNamespace :: "'d \<Rightarrow> char"
  getTitle :: "'d \<Rightarrow> string"
  compare :: "string \<Rightarrow> string \<Rightarrow> int"
  compareCollate :: "string \<Rightarrow> string \<Rightarrow> int"

text \<open>
  \<^verbatim>\<open>readDataNolock(count)\<close>: the loop reads chunks of at most 256 bytes and throws
  when a chunk leaves the stream failed.
\<close>

function readDataNolock_loop :: "nat \<Rightarrow> char list \<Rightarrow> FileImpl \<Rightarrow> error + (char list \<times> FileImpl)" where
  "readDataNolock_loop count data f =
     (if 0 < count then
        let (buffer, zf) = stream_read (min 256 count) (zenoFile f) in
        if failbit zf then Inl (ZenoFileFormatError ''format-error: error reading data'')
        else readDataNolock_loop (count - gcount zf) (data @ take (gcount zf) buffer)
               (f\<lparr>zenoFile := zf\<rparr>)
      else Inr (data, f))"
  by pat_completeness auto
termination
  by (relation "measure (\<lambda>(count, data, f). count)")
     (auto simp: stream_read_def Let_def split: if_splits)

declare readDataNolock_loop.simps [simp del]

definition readDataNolock :: "nat \<Rightarrow> FileImpl \<Rightarrow> error + (char list \<times> FileImpl)" where
  "readDataNolock count f = readDataNolock_loop count [] f"

text \<open>\<^verbatim>\<open>readDataNolock(off, count)\<close> and the locking \<^verbatim>\<open>readData(off, count)\<close>.\<close>

definition readDataNolock_at :: "offset_type \<Rightarrow> nat \<Rightarrow> FileImpl \<Rightarrow> error + (char list \<times> FileImpl)" where
  "readDataNolock_at off count f =
     readDataNolock count (f\<lparr>zenoFile := seekg off (zenoFile f)\<rparr>)"

definition readData :: "offset_type \<Rightarrow> nat \<Rightarrow> FileImpl \<Rightarrow> error + (char list \<times> FileImpl)" where
  "readData off count f = readDataNolock_at off count f"

text \<open>\<^verbatim>\<open>readDirentNolock()\<close> reads at the stream's position.\<close>

definition readDirentNolock :: "'d dirent_ops \<Rightarrow> FileImpl \<Rightarrow> error + ('d \<times> FileImpl)" where
  "readDirentNolock D f =
     (let (header, zf) = stream_read 26 (zenoFile f);
          f1 = f\<lparr>zenoFile := zf\<rparr>
      in
        if failbit zf \<or> gcount zf \<noteq> 26
        then Inl (ZenoFileFormatError
               (''format-error: can't read index-header in '' @ [CHR 0x22] @ filename f
                  @ [CHR 0x22]))
        else
          let dirent = Dirent D header in
          if 0 < getExtraLen D dirent
          then (case readDataNolock (getExtraLen D dirent) f1 of
                  Inl e \<Rightarrow> Inl e
                | Inr (extra, f2) \<Rightarrow> Inr (setExtra D extra dirent, f2))
          else Inr (setExtra D [] dirent, f1))"

text \<open>\<^verbatim>\<open>readDirentNolock(off)\<close> seeks first.\<close>

definition readDirentNolock_at :: "'d dirent_ops \<Rightarrow> offset_type \<Rightarrow> FileImpl \<Rightarrow> error + ('d \<times> FileImpl)" where
  "readDirentNolock_at D off f =
     readDirentNolock D (f\<lparr>zenoFile := seekg off (zenoFile f)\<rparr>)"

subsection \<open>Access by index\<close>

definition getDirent :: "'d dirent_ops \<Rightarrow> nat \<Rightarrow> FileImpl \<Rightarrow> error + ('d \<times> FileImpl)" where
  "getDirent D idx f =
     (if getCountArticles f \<le> idx
      then Inl (ZenoFileFormatError ''article index out of range'')
      else readDirentNolock_at D (indexOffsets f ! idx) f)"

text \<open>
  An \<^verbatim>\<open>Article\<close> is the index with the entry; its third component, a handle on the
  archive itself, is the object the call is made on.
\<close>

record 'd Article =
  article_idx :: nat
  article_dirent :: 'd

definition getArticle_idx :: "'d dirent_ops \<Rightarrow> nat \<Rightarrow> FileImpl \<Rightarrow> error + ('d Article \<times> FileImpl)" where
  "getArticle_idx D idx f =
     (if getCountArticles f \<le> idx
      then Inl (ZenoFileFormatError ''article index out of range'')
      else (case readDirentNolock_at D (indexOffsets f ! idx) f of
              Inl e \<Rightarrow> Inl e
            | Inr (d, f') \<Rightarrow> Inr (\<lparr>article_idx = idx, article_dirent = d\<rparr>, f')))"

subsection \<open>Namespace runs\<close>

text \<open>
  The loops of \<^verbatim>\<open>getNamespaceBeginOffset\<close> and \<^verbatim>\<open>getNamespaceEndOffset\<close>. Both
  start at \<^verbatim>\<open>lower = 0\<close> and keep \<^verbatim>\<open>lower \<le> upper\<close>, so the unsigned difference
  never wraps.
\<close>

function getNamespaceBeginOffset_loop ::
  "'d dirent_ops \<Rightarrow> char \<Rightarrow> nat \<Rightarrow> nat \<Rightarrow> FileImpl \<Rightarrow> error + ((nat \<times> nat) \<times> FileImpl)" where
  "getNamespaceBeginOffset_loop D ch lower upper f =
     (if 1 < upper - lower then
        let m = lower + (upper - lower) div 2 in
        case getDirent D m f of
          Inl e \<Rightarrow> Inl e
        | Inr (d, f') \<Rightarrow>
            if ch \<le> getNamespace D d
            then getNamespaceBeginOffset_loop D ch lower m f'
            else getNamespaceBeginOffset_loop D ch m upper f'
      else Inr ((lower, upper), f))"
  by pat_completeness auto
termination
  by (relation "measure (\<lambda>(D, ch, lower, upper, f). upper - lower)") auto

declare getNamespaceBeginOffset_loop.simps [simp del]

text \<open>The entry read before the loop decides which bound is returned.\<close>

definition getNamespaceBeginOffset :: "'d dirent_ops \<Rightarrow> char \<Rightarrow> FileImpl \<Rightarrow> error + (nat \<times> FileImpl)" where
  "getNamespaceBeginOffset D ch f =
     (case getDirent D 0 f of
        Inl e \<Rightarrow> Inl e
      | Inr (d, f0) \<Rightarrow>
          (case getNamespaceBeginOffset_loop D ch 0 (getCountArticles f) f0 of
             Inl e \<Rightarrow> Inl e
           | Inr ((lower, upper), f1) \<Rightarrow>
               Inr (if getNamespace D d < ch then upper else lower, f1)))"

function getNamespaceEndOffset_loop ::
  "'d dirent_ops \<Rightarrow> char \<Rightarrow> nat \<Rightarrow> nat \<Rightarrow> FileImpl \<Rightarrow> error + ((nat \<times> nat) \<times> FileImpl)" where
  "getNamespaceEndOffset_loop D ch lower upper f =
     (if 1 < upper - lower then
        let m = lower + (upper - lower) div 2 in
        case getDirent D m f of
          Inl e \<Rightarrow> Inl e
        | Inr (d, f') \<Rightarrow>
            if ch < getNamespace D d
            then getNamespaceEndOffset_loop D ch lower m f'
            else getNamespaceEndOffset_loop D ch m upper f'
      else Inr ((lower, upper), f))"
  by pat_completeness auto
termination
  by (relation "measure (\<lambda>(D, ch, lower, upper, f). upper - lower)") auto

declare getNamespaceEndOffset_loop.simps [simp del]

definition getNamespaceEndOffset :: "'d dirent_ops \<Rightarrow> char \<Rightarrow> FileImpl \<Rightarrow> error + (nat \<times> FileImpl)" where
  "getNamespaceEndOffset D ch f =
     (case getNamespaceEndOffset_loop D ch 0 (getCountArticles f) f of
        Inl e \<Rightarrow> Inl e
      | Inr ((lower, upper), f1) \<Rightarrow> Inr (upper, f1))"

subsection \<open>The namespace set\<close>

text \<open>
  The loop of \<^verbatim>\<open>getNamespaces\<close>: \<^verbatim>\<open>d\<close> is the entry that starts the current run.
  Every entry the loop moves to has a greater namespace than the one before, which
  bounds the number of iterations by the number of characters.
\<close>

function getNamespaces_loop :: "'d dirent_ops \<Rightarrow> 'd \<Rightarrow> FileImpl \<Rightarrow> error + FileImpl" where
  "getNamespaces_loop D d f =
     (case getNamespaceEndOffset D (getNamespace D d) f of
        Inl e \<Rightarrow> Inl e
      | Inr (idx, f1) \<Rightarrow>
          if idx < getCountArticles f1 then
            (case getDirent D idx f1 of
               Inl e \<Rightarrow> Inl e
             | Inr (d', f2) \<Rightarrow>
                 getNamespaces_loop D d' (f2\<lparr>namespaces := namespaces f2 @ [getNamespace D d']\<rparr>))
          else Inr f1)"
  by pat_completeness auto

definition getNamespaces :: "'d dirent_ops \<Rightarrow> FileImpl \<Rightarrow> error + (string \<times> FileImpl)" where
  "getNamespaces D f =
     (if namespaces f = [] then
        (case getDirent D 0 f of
           Inl e \<Rightarrow> Inl e
         | Inr (d, f0) \<Rightarrow>
             (case getNamespaces_loop D d (f0\<lparr>namespaces := [getNamespace D d]\<rparr>) of
                Inl e \<Rightarrow> Inl e
              | Inr f1 \<Rightarrow> Inr (namespaces f1, f1)))
      else Inr (namespaces f, f))"

subsection \<open>Lookup by namespace and title\<close>

text \<open>
  The loop of \<^verbatim>\<open>findArticle\<close> either returns from inside (\<open>Return p\<close>) or falls
  through with its bounds (\<open>Fallthrough l u\<close>). The three-way result \<^verbatim>\<open>c\<close> compares
  the namespace first and the title, in the requested mode, second.
\<close>

datatype loop_exit = Return nat | Fallthrough nat nat

definition title_compare :: "'d dirent_ops \<Rightarrow> bool \<Rightarrow> string \<Rightarrow> 'd \<Rightarrow> int" where
  "title_compare D collate title d =
     (if collate then compareCollate D title (getTitle D d)
      else compare D title (getTitle D d))"

function findArticle_loop ::
  "'d dirent_ops \<Rightarrow> char \<Rightarrow> string \<Rightarrow> bool \<Rightarrow> nat \<Rightarrow> nat \<Rightarrow> FileImpl \<Rightarrow> error + (loop_exit \<times> FileImpl)" where
  "findArticle_loop D ns title collate l u f =
     (if 1 < u - l then
        let p = l + (u - l) div 2 in
        case at_index (indexOffsets f) p of
          Inl e \<Rightarrow> Inl e
        | Inr off \<Rightarrow>
            (case readDirentNolock_at D off f of
               Inl e \<Rightarrow> Inl e
             | Inr (d, f') \<Rightarrow>
                 let c = (if ns < getNamespace D d then - 1
                          else if getNamespace D d < ns then 1
                          else title_compare D collate title d)
                 in if c < 0 then findArticle_loop D ns title collate l p f'
                    else if 0 < c then findArticle_loop D ns title collate p u f'
                    else Inr (Return p, f'))
      else Inr (Fallthrough l u, f))"
  by pat_completeness auto
termination
  by (relation "measure (\<lambda>(D, ns, title, collate, l, u, f). u - l)") auto

declare findArticle_loop.simps [simp del]

text \<open>
  The result is the pair \<^verbatim>\<open>(found, index)\<close>. After the loop the entry at \<^verbatim>\<open>l\<close> is
  read and its title alone is compared.
\<close>

definition findArticle ::
  "'d dirent_ops \<Rightarrow> char \<Rightarrow> string \<Rightarrow> bool \<Rightarrow> FileImpl \<Rightarrow> error + ((bool \<times> nat) \<times> FileImpl)" where
  "findArticle D ns title collate f =
     (case getNamespaces D f of
        Inl e \<Rightarrow> Inl e
      | Inr (nss, f0) \<Rightarrow>
          if ns \<notin> set nss then Inr ((False, 0), f0)
          else
            (case findArticle_loop D ns title collate 0 (getCountArticles f0) f0 of
               Inl e \<Rightarrow> Inl e
             | Inr (Return p, f1) \<Rightarrow> Inr ((True, p), f1)
             | Inr (Fallthrough l u, f1) \<Rightarrow>
                 (case at_index (indexOffsets f1) l of
                    Inl e \<Rightarrow> Inl e
                  | Inr off \<Rightarrow>
                      (case readDirentNolock_at D off f1 of
                         Inl e \<Rightarrow> Inl e
                       | Inr (d, f2) \<Rightarrow>
                           if title_compare D collate title d = 0
                           then Inr ((True, l), f2)
                           else Inr ((False, u), f2)))))"

text \<open>
  \<^verbatim>\<open>getArticle(ns, url, collate)\<close>: the empty \<^verbatim>\<open>Article()\<close> of a miss is \<open>None\<close>.
\<close>

definition getArticle ::
  "'d dirent_ops \<Rightarrow> char \<Rightarrow> string \<Rightarrow> bool \<Rightarrow> FileImpl \<Rightarrow> error + ('d Article option \<times> FileImpl)" where
  "getArticle D ns url collate f =
     (case findArticle D ns url collate f of
        Inl e \<Rightarrow> Inl e
      | Inr ((found, idx), f0) \<Rightarrow>
          if \<not> found then Inr (None, f0)
          else
            (case at_index (indexOffsets f0) idx of
               Inl e \<Rightarrow> Inl e
             | Inr off \<Rightarrow>
                 (case readDirentNolock_at D off f0 of
                    Inl e \<Rightarrow> Inl e
                  | Inr (d, f1) \<Rightarrow> Inr (Some \<lparr>article_idx = idx, article_dirent = d\<rparr>, f1))))"

subsection \<open>Readable archives\<close>

text \<open>
  The readers move the stream and nothing else. \<open>entry_at\<close> is the entry that the bytes
  at an offset decode to, when there are enough of them, and \<open>dirent_of\<close> the entry at
  an index of the offset table. \<open>frame\<close> relates the object before a successful read
  to the object after it, and \<open>unchanged\<close> is its reflexive form for the loops.
\<close>

definition frame :: "FileImpl \<Rightarrow> FileImpl \<Rightarrow> bool" where
  "frame f f' \<longleftrightarrow>
     content (zenoFile f') = content (zenoFile f) \<and> filename f' = filename f
     \<and> indexOffsets f' = indexOffsets f \<and> namespaces f' = namespaces f
     \<and> \<not> failbit (zenoFile f')"

definition entry_at :: "'d dirent_ops \<Rightarrow> char list \<Rightarrow> 64 word \<Rightarrow> 'd option" where
  "entry_at D bytes off =
     (if 0x8000000000000000 \<le> off then None
      else
        let header = take 26 (drop (unat off) bytes) in
        if length header < 26 then None
        else
          let d = Dirent D header;
              n = getExtraLen D d;
              extra = take n (drop (unat off + 26) bytes)
          in if length extra < n then None else Some (setExtra D extra d))"

definition unchanged :: "FileImpl \<Rightarrow> FileImpl \<Rightarrow> bool" where
  "unchanged f f' \<longleftrightarrow>
     content (zenoFile f') = content (zenoFile f) \<and> filename f' = filename f
     \<and> indexOffsets f' = indexOffsets f \<and> namespaces f' = namespaces f
     \<and> (\<not> failbit (zenoFile f) \<longrightarrow> \<not> failbit (zenoFile f'))"

definition dirent_of :: "'d dirent_ops \<Rightarrow> FileImpl \<Rightarrow> nat \<Rightarrow> 'd option" where
  "dirent_of D f i = entry_at D (content (zenoFile f)) (indexOffsets f ! i)"

text \<open>
  \<open>pointer_block\<close> is the block of \<^verbatim>\<open>rIndexPtrLen\<close> bytes at \<^verbatim>\<open>rIndexPtrPos\<close> that the
  constructor asks for, and \<open>pointer_read_complete\<close> says that the file holds all of it
  at a position the stream can seek.
\<close>

definition pointer_read_complete :: "char list \<Rightarrow> bool" where
  "pointer_read_complete bytes \<longleftrightarrow>
     rIndexPtrPos (take headerSize bytes) < 0x8000000000000000
     \<and> unat (rIndexPtrPos (take headerSize bytes)) + unat (rIndexPtrLen (take headerSize bytes))
         \<le> length bytes"

definition pointer_block :: "char list \<Rightarrow> char list" where
  "pointer_block bytes =
     take (unat (rIndexPtrLen (take headerSize bytes)))
       (drop (unat (rIndexPtrPos (take headerSize bytes))) bytes)"

text \<open>
  \<open>archive D f ds\<close>: the stream of \<open>f\<close> has not failed and the bytes at the offsets
  of its table decode, in table order, to the entries \<open>ds\<close>. \<open>key_less\<close> is the order
  of the keys (namespace, title), the titles compared by the byte-exact \<^verbatim>\<open>compare\<close>,
  and \<open>sorted_by_key\<close> says that the entries ascend strictly in it.
\<close>

definition archive :: "'d dirent_ops \<Rightarrow> FileImpl \<Rightarrow> 'd list \<Rightarrow> bool" where
  "archive D f ds \<longleftrightarrow>
     \<not> failbit (zenoFile f) \<and> map (dirent_of D f) [0..<getCountArticles f] = map Some ds"

definition key_less :: "'d dirent_ops \<Rightarrow> char \<times> string \<Rightarrow> char \<times> string \<Rightarrow> bool" where
  "key_less D a b \<longleftrightarrow> fst a < fst b \<or> (fst a = fst b \<and> compare D (snd a) (snd b) < 0)"

definition entry_key :: "'d dirent_ops \<Rightarrow> 'd \<Rightarrow> char \<times> string" where
  "entry_key D d = (getNamespace D d, getTitle D d)"

definition sorted_by_key :: "'d dirent_ops \<Rightarrow> 'd list \<Rightarrow> bool" where
  "sorted_by_key D ds = sorted_wrt (key_less D) (map (entry_key D) ds)"

text \<open>
  \<open>key_compare\<close> is the three-way result \<^verbatim>\<open>c\<close> of the loop of \<^verbatim>\<open>findArticle\<close> for an
  entry, and \<open>search_sorted\<close> says that the table ascends as that search sees it: an
  entry before one that the key is not below is below the key. \<open>three_way\<close> says that
  a comparison is that of a linear order.
\<close>

definition key_compare :: "'d dirent_ops \<Rightarrow> char \<Rightarrow> string \<Rightarrow> bool \<Rightarrow> 'd \<Rightarrow> int" where
  "key_compare D ns title collate d =
     (if ns < getNamespace D d then - 1
      else if getNamespace D d < ns then 1
      else title_compare D collate title d)"

definition search_sorted :: "'d dirent_ops \<Rightarrow> char \<Rightarrow> string \<Rightarrow> bool \<Rightarrow> 'd list \<Rightarrow> bool" where
  "search_sorted D ns title collate ds =
     sorted_wrt (\<lambda>a b. 0 \<le> key_compare D ns title collate b \<longrightarrow> 0 < key_compare D ns title collate a) ds"

definition three_way :: "(string \<Rightarrow> string \<Rightarrow> int) \<Rightarrow> bool" where
  "three_way cmp \<longleftrightarrow>
     (\<forall>a b. cmp a b = 0 \<longleftrightarrow> a = b) \<and> (\<forall>a b. cmp a b < 0 \<longleftrightarrow> 0 < cmp b a)
     \<and> (\<forall>a b c. cmp a b < 0 \<longrightarrow> cmp b c < 0 \<longrightarrow> cmp a c < 0)"

subsection \<open>Example archives\<close>

text \<open>
  A decoder for the examples: the namespace is the first header byte, the length of the
  extra data is the 16-bit little-endian number in the last two header bytes, the title
  is the extra data, and both comparisons are the byte-wise lexicographic one.
  \<open>example_file\<close> is a freshly opened object on given bytes with a given offset table.
\<close>

definition example_ops :: "(char list \<times> char list) dirent_ops" where
  "example_ops =
     \<lparr>Dirent = (\<lambda>header. (header, [])),
      getExtraLen = (\<lambda>(header, extra). of_char (header ! 24) + 256 * of_char (header ! 25)),
      setExtra = (\<lambda>extra (header, _). (header, extra)),
      getNamespace = (\<lambda>(header, extra). header ! 0),
      getTitle = (\<lambda>(header, extra). extra),
      compare = (\<lambda>a b. if a < b then - 1 else if b < a then 1 else 0),
      compareCollate = (\<lambda>a b. if a < b then - 1 else if b < a then 1 else 0)\<rparr>"

definition example_header :: "char \<Rightarrow> string \<Rightarrow> char list" where
  "example_header ns title = ns # replicate 23 (CHR 0x00) @ [char_of (length title), CHR 0x00]"

definition example_entry :: "char \<Rightarrow> string \<Rightarrow> char list" where
  "example_entry ns title = example_header ns title @ title"

definition example_file :: "char list \<Rightarrow> offset_type list \<Rightarrow> FileImpl" where
  "example_file bytes offs =
     \<lparr>zenoFile = \<lparr>content = bytes, pos = 0, failbit = False, gcount = 0\<rparr>,
      filename = ''a.zeno'', indexOffsets = offs, namespaces = []\<rparr>"

definition ex1 :: FileImpl where
  "ex1 = example_file (example_entry (CHR ''A'') ''x'' @ example_entry (CHR ''B'') ''y'') [0, 27]"

definition ex1_cached :: FileImpl where
  "ex1_cached = ex1\<lparr>zenoFile := (zenoFile ex1)\<lparr>pos := 54, gcount := 1\<rparr>, namespaces := ''AB''\<rparr>"

definition ex0 :: FileImpl where
  "ex0 = example_file [] []"

text \<open>
  The archive of the specification's example: namespace \<open>A\<close> with the titles
  \<open>bat\<close>, \<open>cat\<close>, \<open>dog\<close> and namespace \<open>B\<close> with the title \<open>eel\<close>.
\<close>

definition spec_entries :: "(char list \<times> char list) list" where
  "spec_entries =
     [(example_header (CHR ''A'') ''bat'', ''bat''), (example_header (CHR ''A'') ''cat'', ''cat''),
      (example_header (CHR ''A'') ''dog'', ''dog''), (example_header (CHR ''B'') ''eel'', ''eel'')]"

definition spec_example :: FileImpl where
  "spec_example =
     example_file
       (example_entry (CHR ''A'') ''bat'' @ example_entry (CHR ''A'') ''cat''
        @ example_entry (CHR ''A'') ''dog'' @ example_entry (CHR ''B'') ''eel'')
       [0, 29, 58, 87]"

text \<open>
  Archive files for the constructor: a 60-byte header with the fields at their offsets,
  followed by the bytes of the index-pointer table. \<open>example_fs\<close> is a file system that
  holds one file, and \<open>opened\<close> the object a constructor call leaves.
\<close>

primrec toLittleEndian :: "nat \<Rightarrow> nat \<Rightarrow> char list" where
  "toLittleEndian 0 n = []"
| "toLittleEndian (Suc k) n = char_of (n mod 256) # toLittleEndian k (n div 256)"

definition example_zeno_header :: "nat \<Rightarrow> nat \<Rightarrow> nat \<Rightarrow> nat \<Rightarrow> nat \<Rightarrow> nat \<Rightarrow> char list" where
  "example_zeno_header magic version count indexPos indexPtrPos indexPtrLen =
     toLittleEndian 4 magic @ toLittleEndian 4 version @ toLittleEndian 4 count
     @ replicate 4 (CHR 0x00) @ toLittleEndian 8 indexPos @ replicate 8 (CHR 0x00)
     @ toLittleEndian 8 indexPtrPos @ toLittleEndian 4 indexPtrLen @ replicate 16 (CHR 0x00)"

definition example_fs :: "char list \<Rightarrow> (string \<rightharpoonup> char list)" where
  "example_fs bytes = [''a.zeno'' \<mapsto> bytes]"

definition opened :: "char list \<Rightarrow> bool \<Rightarrow> nat \<Rightarrow> nat \<Rightarrow> offset_type list \<Rightarrow> FileImpl" where
  "opened bytes failed p g offs =
     \<lparr>zenoFile = \<lparr>content = bytes, pos = p, failbit = failed, gcount = g\<rparr>,
      filename = ''a.zeno'', indexOffsets = offs, namespaces = []\<rparr>"

definition truncated_pointers :: "char list" where
  "truncated_pointers = example_zeno_header 1439867043 3 2 0x44 0x3c 8 @ toLittleEndian 4 7"

definition bad_magic :: "char list" where
  "bad_magic = example_zeno_header 1439867044 3 0 0x3c 0x3c 0"

definition bad_version :: "char list" where
  "bad_version = example_zeno_header 1439867043 2 0 0x3c 0x3c 0"

definition good_header :: "char list" where
  "good_header = example_zeno_header 1439867043 3 0 0x3c 0x3c 0"

definition two_pointers :: "char list" where
  "two_pointers =
     example_zeno_header 1439867043 3 2 0x44 0x3c 8 @ toLittleEndian 4 7 @ toLittleEndian 4 5"

text \<open>
  Three archives whose header is at odds with the file: \<open>overlong_pointers\<close> announces
  one article and eight bytes of pointers, \<open>short_pointer_length\<close> two articles and
  four bytes of pointers (the file holds both pointers), and \<open>missing_pointers\<close> holds
  one entry and ends where its pointer table should begin.
\<close>

definition overlong_pointers :: "char list" where
  "overlong_pointers =
     example_zeno_header 1439867043 3 1 0x44 0x3c 8 @ toLittleEndian 4 7 @ toLittleEndian 4 5"

definition short_pointer_length :: "char list" where
  "short_pointer_length =
     example_zeno_header 1439867043 3 2 0x44 0x3c 4 @ toLittleEndian 4 7 @ toLittleEndian 4 5"

definition missing_pointers :: "char list" where
  "missing_pointers = example_zeno_header 1439867043 3 1 0x3c 0x57 4 @ example_entry (CHR ''A'') ''x''"


section \<open>What a read leaves unchanged\<close>

lemma readDataNolock_loop_Inr:
  "readDataNolock_loop count data f = Inr (bs, f') \<Longrightarrow> 0 < count \<Longrightarrow>
     \<not> failbit (zenoFile f) \<and> frame f f'
     \<and> bs = data @ take count (drop (pos (zenoFile f)) (content (zenoFile f)))
     \<and> pos (zenoFile f) + count \<le> length (content (zenoFile f))"
proof (induction count data f rule: readDataNolock_loop.induct)
  case (1 count data f)
  obtain buffer zf where r: "stream_read (min 256 count) (zenoFile f) = (buffer, zf)"
    by (cases "stream_read (min 256 count) (zenoFile f)")
  from "1.prems" r have nf: "\<not> failbit zf"
    by (simp add: readDataNolock_loop.simps[of count] split: if_splits)
  from r nf have g: "\<not> failbit (zenoFile f)" 
    and zf: "zf = (zenoFile f)\<lparr>pos := pos (zenoFile f) + min 256 count, gcount := min 256 count, failbit := False\<rparr>"
    and buf: "buffer = take (min 256 count) (drop (pos (zenoFile f)) (content (zenoFile f)))"
    and len: "length buffer = min 256 count"
    by (auto simp: stream_read_def Let_def split: if_splits)
  from len buf "1.prems"(2) have avail: "pos (zenoFile f) + min 256 count \<le> length (content (zenoFile f))"
    by (simp add: min_def split: if_splits)
  from "1.prems" r nf have rec: "readDataNolock_loop (count - gcount zf) (data @ take (gcount zf) buffer) (f\<lparr>zenoFile := zf\<rparr>) = Inr (bs, f')"
    by (simp add: readDataNolock_loop.simps[of count])
  show ?case
  proof (cases "count \<le> 256")
    case True
    with rec zf have "bs = data @ take (gcount zf) buffer" "f' = f\<lparr>zenoFile := zf\<rparr>"
      by (simp_all add: readDataNolock_loop.simps[of 0] min_def)
    with True zf buf len g avail show ?thesis
      by (auto simp: frame_def min_def)
  next
    case False
    then have "0 < count - gcount zf" using zf by simp
    from "1.IH"[OF "1.prems"(2) refl r[symmetric] nf rec this]
    have ih: "frame (f\<lparr>zenoFile := zf\<rparr>) f'" 
       "bs = (data @ take (gcount zf) buffer) @ take (count - gcount zf) (drop (pos zf) (content zf))"
       "pos zf + (count - gcount zf) \<le> length (content zf)"
      by simp_all
    from False zf have gz: "gcount zf = 256" "pos zf = pos (zenoFile f) + 256" "content zf = content (zenoFile f)"
      by simp_all
    have "take count (drop (pos (zenoFile f)) (content (zenoFile f)))
        = take 256 (drop (pos (zenoFile f)) (content (zenoFile f))) @ take (count - 256) (drop (pos (zenoFile f) + 256) (content (zenoFile f)))"
      using False by (metis add.commute drop_drop le_add_diff_inverse nat_le_linear take_add)
    with ih gz buf False g show ?thesis
      by (auto simp: frame_def min_def)
  qed
qed

lemma readDataNolock_loop_ok:
  "\<not> failbit (zenoFile f) \<Longrightarrow> pos (zenoFile f) + count \<le> length (content (zenoFile f)) \<Longrightarrow>
     \<exists>f'. readDataNolock_loop count data f
            = Inr (data @ take count (drop (pos (zenoFile f)) (content (zenoFile f))), f')
          \<and> frame f f'"
proof (induction count data f rule: readDataNolock_loop.induct)
  case (1 count data f)
  show ?case
  proof (cases "0 < count")
    case False
    with "1.prems" show ?thesis
      by (simp add: readDataNolock_loop.simps[of 0] frame_def)
  next
    case True
    define zf where "zf = (zenoFile f)\<lparr>pos := pos (zenoFile f) + min 256 count, gcount := min 256 count, failbit := False\<rparr>"
    define buffer where "buffer = take (min 256 count) (drop (pos (zenoFile f)) (content (zenoFile f)))"
    from "1.prems" have r: "stream_read (min 256 count) (zenoFile f) = (buffer, zf)"
      by (auto simp: stream_read_def Let_def zf_def buffer_def min_def)
    have nf: "\<not> failbit zf" by (simp add: zf_def)
    have unf: "readDataNolock_loop count data f
          = readDataNolock_loop (count - gcount zf) (data @ take (gcount zf) buffer) (f\<lparr>zenoFile := zf\<rparr>)"
      using True r nf by (simp add: readDataNolock_loop.simps[of count])
    have p: "pos (zenoFile (f\<lparr>zenoFile := zf\<rparr>)) + (count - gcount zf) \<le> length (content (zenoFile (f\<lparr>zenoFile := zf\<rparr>)))"
      using "1.prems" by (simp add: zf_def min_def)
    have nf': "\<not> failbit (zenoFile (f\<lparr>zenoFile := zf\<rparr>))" by (simp add: zf_def)
    from "1.IH"[OF True refl r[symmetric] nf nf' p]
    obtain f' where ih: "readDataNolock_loop (count - gcount zf) (data @ take (gcount zf) buffer) (f\<lparr>zenoFile := zf\<rparr>)
        = Inr ((data @ take (gcount zf) buffer) @ take (count - gcount zf) (drop (pos zf) (content zf)), f')"
      and fr: "frame (f\<lparr>zenoFile := zf\<rparr>) f'"
      by auto
    have "take count (drop (pos (zenoFile f)) (content (zenoFile f)))
        = take (min 256 count) (drop (pos (zenoFile f)) (content (zenoFile f)))
          @ take (count - min 256 count) (drop (pos (zenoFile f) + min 256 count) (content (zenoFile f)))"
      by (metis add.commute drop_drop le_add_diff_inverse min.cobounded2 take_add)
    then have "(data @ take (gcount zf) buffer) @ take (count - gcount zf) (drop (pos zf) (content zf))
        = data @ take count (drop (pos (zenoFile f)) (content (zenoFile f)))"
      by (simp add: zf_def buffer_def)
    with ih unf fr show ?thesis
      by (auto simp: frame_def zf_def)
  qed
qed

lemma readDirentNolock_at_Inr:
  assumes "readDirentNolock_at D off f = Inr (d, f')"
  shows "\<not> failbit (zenoFile f) \<and> entry_at D (content (zenoFile f)) off = Some d \<and> frame f f'"
proof -
  define g where "g = f\<lparr>zenoFile := seekg off (zenoFile f)\<rparr>"
  obtain header zf where r: "stream_read 26 (zenoFile g) = (header, zf)"
    by (cases "stream_read 26 (zenoFile g)")
  from assms have rd: "readDirentNolock D g = Inr (d, f')"
    by (simp add: readDirentNolock_at_def g_def)
  with r have ok: "\<not> failbit zf" "gcount zf = 26"
    by (auto simp: readDirentNolock_def Let_def split: if_splits)
  from r ok have gg: "\<not> failbit (zenoFile g)"
    and hdr: "header = take 26 (drop (pos (zenoFile g)) (content (zenoFile g)))"
    and len: "length header = 26"
    and zf: "zf = (zenoFile g)\<lparr>pos := pos (zenoFile g) + 26, gcount := 26, failbit := False\<rparr>"
    by (auto simp: stream_read_def Let_def split: if_splits)
  from gg have nf: "\<not> failbit (zenoFile f)" and small: "\<not> 0x8000000000000000 \<le> off"
    and pg: "pos (zenoFile g) = unat off" and cg: "content (zenoFile g) = content (zenoFile f)"
    by (auto simp: g_def seekg_def split: if_splits)
  show ?thesis
  proof (cases "0 < getExtraLen D (Dirent D header)")
    case False
    with rd r ok have "d = setExtra D [] (Dirent D header)" "f' = g\<lparr>zenoFile := zf\<rparr>"
      by (auto simp: readDirentNolock_def Let_def)
    with False nf small hdr len pg cg zf show ?thesis
      by (auto simp: entry_at_def Let_def frame_def g_def)
  next
    case True
    with rd r ok obtain extra where
      rdd: "readDataNolock_loop (getExtraLen D (Dirent D header)) [] (g\<lparr>zenoFile := zf\<rparr>) = Inr (extra, f')"
      and d: "d = setExtra D extra (Dirent D header)"
      by (auto simp: readDirentNolock_def readDataNolock_def Let_def split: sum.splits)
    from readDataNolock_loop_Inr[OF rdd True]
    have fr: "frame (g\<lparr>zenoFile := zf\<rparr>) f'"
      and ex: "extra = take (getExtraLen D (Dirent D header)) (drop (pos zf) (content zf))"
      and av: "pos zf + getExtraLen D (Dirent D header) \<le> length (content zf)"
      by simp_all
    from av zf pg cg have "getExtraLen D (Dirent D header)
        \<le> length (take (getExtraLen D (Dirent D header)) (drop (unat off + 26) (content (zenoFile f))))"
      by simp
    with d ex fr nf small hdr len pg cg zf show ?thesis
      by (auto simp: entry_at_def Let_def frame_def g_def)
  qed
qed

lemma readDirentNolock_at_ok:
  assumes nf: "\<not> failbit (zenoFile f)"
    and e: "entry_at D (content (zenoFile f)) off = Some d"
  shows "\<exists>f'. readDirentNolock_at D off f = Inr (d, f') \<and> frame f f'"
proof -
  define g where "g = f\<lparr>zenoFile := seekg off (zenoFile f)\<rparr>"
  define header where "header = take 26 (drop (unat off) (content (zenoFile f)))"
  define zf where "zf = (zenoFile g)\<lparr>pos := unat off + 26, gcount := 26, failbit := False\<rparr>"
  from e have small: "\<not> 0x8000000000000000 \<le> off" and len: "length header = 26"
    by (auto simp: entry_at_def header_def Let_def split: if_splits)
  from e small len have ex: "getExtraLen D (Dirent D header)
        \<le> length (take (getExtraLen D (Dirent D header)) (drop (unat off + 26) (content (zenoFile f))))"
    and d: "d = setExtra D (take (getExtraLen D (Dirent D header)) (drop (unat off + 26) (content (zenoFile f)))) (Dirent D header)"
    by (auto simp: entry_at_def header_def Let_def split: if_splits)
  from nf small have zg: "zenoFile g = (zenoFile f)\<lparr>pos := unat off\<rparr>"
    by (simp add: g_def seekg_def)
  from len zg have r: "stream_read 26 (zenoFile g) = (header, zf)"
    using nf by (auto simp: stream_read_def Let_def zf_def header_def)
  show ?thesis
  proof (cases "0 < getExtraLen D (Dirent D header)")
    case False
    with r d have "readDirentNolock D g = Inr (d, g\<lparr>zenoFile := zf\<rparr>)"
      by (simp add: readDirentNolock_def Let_def zf_def)
    then show ?thesis
      using zg by (auto simp: readDirentNolock_at_def g_def[symmetric] frame_def zf_def) (simp add: g_def)+
  next
    case True
    have a: "\<not> failbit (zenoFile (g\<lparr>zenoFile := zf\<rparr>))" by (simp add: zf_def)
    from len have "unat off + 26 \<le> length (content (zenoFile f))"
      by (simp add: header_def)
    with ex have b: "pos (zenoFile (g\<lparr>zenoFile := zf\<rparr>)) + getExtraLen D (Dirent D header)
        \<le> length (content (zenoFile (g\<lparr>zenoFile := zf\<rparr>)))"
      by (simp add: zf_def zg)
    from readDataNolock_loop_ok[OF a b, of "[]"] obtain f' where
      l: "readDataNolock_loop (getExtraLen D (Dirent D header)) [] (g\<lparr>zenoFile := zf\<rparr>)
          = Inr (take (getExtraLen D (Dirent D header)) (drop (unat off + 26) (content (zenoFile f))), f')"
      and fr: "frame (g\<lparr>zenoFile := zf\<rparr>) f'"
      by (auto simp: zf_def zg)
    from True r d l have "readDirentNolock D g = Inr (d, f')"
      by (simp add: readDirentNolock_def readDataNolock_def Let_def zf_def)
    moreover from fr have "frame f f'"
      by (simp add: frame_def zf_def zg) (simp add: g_def)
    ultimately show ?thesis
      by (auto simp: readDirentNolock_at_def g_def[symmetric])
  qed
qed

lemma unchanged_refl: "unchanged f f"
  by (simp add: unchanged_def)

lemma unchanged_trans: "unchanged f g \<Longrightarrow> unchanged g h \<Longrightarrow> unchanged f h"
  by (simp add: unchanged_def)

lemma frame_unchanged: "frame f f' \<Longrightarrow> unchanged f f'"
  by (simp add: frame_def unchanged_def)

lemma unchanged_dirent_of: "unchanged f f' \<Longrightarrow> dirent_of D f' i = dirent_of D f i"
  by (simp add: unchanged_def dirent_of_def)

lemma unchanged_count: "unchanged f f' \<Longrightarrow> getCountArticles f' = getCountArticles f"
  by (simp add: unchanged_def getCountArticles_def)

lemma getDirent_Inr:
  assumes "getDirent D i f = Inr (d, f')"
  shows "i < getCountArticles f \<and> \<not> failbit (zenoFile f) \<and> dirent_of D f i = Some d \<and> unchanged f f'"
  using assms readDirentNolock_at_Inr[of D "indexOffsets f ! i" f d f']
  by (auto simp: getDirent_def dirent_of_def frame_unchanged split: if_splits)

lemma getDirent_ok:
  assumes "\<not> failbit (zenoFile f)" "i < getCountArticles f" "dirent_of D f i = Some d"
  shows "\<exists>f'. getDirent D i f = Inr (d, f') \<and> unchanged f f'"
  using assms readDirentNolock_at_ok[of f D "indexOffsets f ! i" d]
  by (auto simp: getDirent_def dirent_of_def frame_unchanged)

lemma getNamespaceEndOffset_loop_Inr:
  "getNamespaceEndOffset_loop D ch lower upper f = Inr ((l, u), f') \<Longrightarrow>
     unchanged f f' \<and> (u = upper \<or> (\<exists>d. dirent_of D f u = Some d \<and> ch < getNamespace D d))"
proof (induction D ch lower upper f rule: getNamespaceEndOffset_loop.induct)
  case (1 D ch lower upper f)
  show ?case
  proof (cases "1 < upper - lower")
    case False
    with "1.prems" show ?thesis
      by (simp add: getNamespaceEndOffset_loop.simps[of D ch lower upper] unchanged_refl)
  next
    case True
    define m where "m = lower + (upper - lower) div 2"
    from "1.prems" True obtain d g where gd: "getDirent D m f = Inr (d, g)"
      by (auto simp: getNamespaceEndOffset_loop.simps[of D ch lower upper] m_def Let_def
               split: sum.splits)
    from getDirent_Inr[OF gd] have st: "unchanged f g" and dm: "dirent_of D f m = Some d"
      by simp_all
    show ?thesis
    proof (cases "ch < getNamespace D d")
      case lt: True
      with "1.prems" True gd have r: "getNamespaceEndOffset_loop D ch lower m g = Inr ((l, u), f')"
        by (simp add: getNamespaceEndOffset_loop.simps[of D ch lower upper] m_def Let_def)
      from "1.IH"(1)[OF True m_def gd refl lt r]
      have "unchanged g f'" "u = m \<or> (\<exists>d. dirent_of D g u = Some d \<and> ch < getNamespace D d)"
        by simp_all
      with st dm lt show ?thesis
        by (auto simp: unchanged_dirent_of intro: unchanged_trans)
    next
      case ge: False
      with "1.prems" True gd have r: "getNamespaceEndOffset_loop D ch m upper g = Inr ((l, u), f')"
        by (simp add: getNamespaceEndOffset_loop.simps[of D ch lower upper] m_def Let_def)
      from "1.IH"(2)[OF True m_def gd refl ge r]
      have "unchanged g f'" "u = upper \<or> (\<exists>d. dirent_of D g u = Some d \<and> ch < getNamespace D d)"
        by simp_all
      with st show ?thesis
        by (auto simp: unchanged_dirent_of intro: unchanged_trans)
    qed
  qed
qed

lemma getNamespaceEndOffset_next:
  assumes "getNamespaceEndOffset D ch f = Inr (idx, f1)" "idx < getCountArticles f1"
    "getDirent D idx f1 = Inr (d', f2)"
  shows "ch < getNamespace D d'"
proof -
  from assms(1) obtain l where
    r: "getNamespaceEndOffset_loop D ch 0 (getCountArticles f) f = Inr ((l, idx), f1)"
    by (auto simp: getNamespaceEndOffset_def split: sum.splits)
  from getNamespaceEndOffset_loop_Inr[OF r]
  have st: "unchanged f f1"
    and u: "idx = getCountArticles f \<or> (\<exists>d. dirent_of D f idx = Some d \<and> ch < getNamespace D d)"
    by simp_all
  from getDirent_Inr[OF assms(3)] have "dirent_of D f1 idx = Some d'"
    by simp
  with st have "dirent_of D f idx = Some d'"
    by (simp add: unchanged_dirent_of)
  with u assms(2) st show ?thesis
    by (auto simp: unchanged_count)
qed

text \<open>
  The loop of \<^verbatim>\<open>getNamespaces\<close> terminates on every input: each entry it moves to has
  a greater namespace than the one before.
\<close>

termination getNamespaces_loop
proof (relation "measure (\<lambda>(D, d, f). 256 - of_char (getNamespace D d))", goal_cases)
  case 1
  show ?case by simp
next
  case (2 D d f x2 idx f1 x2a d' f2)
  then have "getNamespace D d < getNamespace D d'"
    using getNamespaceEndOffset_next[of D "getNamespace D d" f idx f1 d' f2] by simp
  then have "(of_char (getNamespace D d) :: nat) < of_char (getNamespace D d')"
    by (simp add: less_char_def)
  moreover have "(of_char (getNamespace D d') :: nat) < 256"
    by simp
  ultimately have "256 - of_char (getNamespace D d') < (256 - of_char (getNamespace D d) :: nat)"
    by arith
  then show ?case
    by simp
qed

declare getNamespaces_loop.simps [simp del]

section \<open>Opening an archive\<close>

lemma FileImpl_ctor_Some:
  assumes "fs fname = Some bytes"
  shows "FileImpl_ctor fs fname =
     (if length bytes < headerSize
      then Inl (ZenoFileFormatError ''format-error: header too short in zeno-file'')
      else
        let header = take headerSize bytes in
        if rMagic header \<noteq> 1439867043
        then Inl (ZenoFileFormatError
               (''invalid magic number '' @ showNat (unat (rMagic header))
                  @ '' found - 1439867043 expected''))
        else if rVersion header \<noteq> 3
        then Inl (ZenoFileFormatError
               (''invalid zenofile version '' @ showNat (unat (rVersion header))
                  @ '' found - 3 expected''))
        else if 4 * unat (rCount header) < unat (rIndexPtrLen header) then Inl BufferOverrun
        else
          let zf1 = \<lparr>content = bytes, pos = headerSize, failbit = False, gcount = headerSize\<rparr>;
              zf2 = seekg (rIndexPtrPos header) zf1;
              (bs, zf3) = stream_read (unat (rIndexPtrLen header)) zf2;
              buffer = fill_buffer (unat (rCount header)) bs
          in Inr \<lparr>zenoFile = zf3,
                  filename = fname,
                  indexOffsets =
                    map (\<lambda>i. rIndexPos header
                              + ucast (fromLittleEndian (buffer_elem buffer i) :: size_type))
                        [0..<unat (rCount header)],
                  namespaces = []\<rparr>)"
proof (cases "length bytes < headerSize")
  case True
  with assms show ?thesis
    by (simp add: FileImpl_ctor_def ifstream_open_def stream_read_def Let_def)
next
  case False
  then have "min (length bytes) headerSize = headerSize"
    by simp
  with assms False show ?thesis
    by (simp add: FileImpl_ctor_def ifstream_open_def stream_read_def[of headerSize] Let_def)
qed

lemma FileImpl_ctor_outcomes:
  assumes "fs fname = Some bytes"
  shows "(length bytes < headerSize \<longrightarrow>
            FileImpl_ctor fs fname
              = Inl (ZenoFileFormatError ''format-error: header too short in zeno-file''))
       \<and> (headerSize \<le> length bytes \<longrightarrow>
            ((\<exists>f. FileImpl_ctor fs fname = Inr f)
               \<longleftrightarrow> rMagic (take headerSize bytes) = 1439867043
                   \<and> rVersion (take headerSize bytes) = 3
                   \<and> unat (rIndexPtrLen (take headerSize bytes))
                       \<le> 4 * unat (rCount (take headerSize bytes)))
          \<and> (rMagic (take headerSize bytes) \<noteq> 1439867043 \<longrightarrow>
                FileImpl_ctor fs fname
                  = Inl (ZenoFileFormatError
                      (''invalid magic number '' @ showNat (unat (rMagic (take headerSize bytes)))
                         @ '' found - 1439867043 expected'')))
          \<and> (rMagic (take headerSize bytes) = 1439867043
               \<and> rVersion (take headerSize bytes) \<noteq> 3 \<longrightarrow>
                FileImpl_ctor fs fname
                  = Inl (ZenoFileFormatError
                      (''invalid zenofile version '' @ showNat (unat (rVersion (take headerSize bytes)))
                         @ '' found - 3 expected'')))
          \<and> (rMagic (take headerSize bytes) = 1439867043
               \<and> rVersion (take headerSize bytes) = 3
               \<and> 4 * unat (rCount (take headerSize bytes))
                   < unat (rIndexPtrLen (take headerSize bytes)) \<longrightarrow>
                FileImpl_ctor fs fname = Inl BufferOverrun))"
  using assms
  by (auto simp: FileImpl_ctor_Some[of fs fname bytes] Let_def split: prod.splits)

lemma FileImpl_ctor_outcomes_examples:
  "FileImpl_ctor (example_fs ''short'') ''a.zeno''
     = Inl (ZenoFileFormatError ''format-error: header too short in zeno-file'')"
  "FileImpl_ctor (example_fs bad_magic) ''a.zeno''
     = Inl (ZenoFileFormatError ''invalid magic number 1439867044 found - 1439867043 expected'')"
  "FileImpl_ctor (example_fs bad_version) ''a.zeno''
     = Inl (ZenoFileFormatError ''invalid zenofile version 2 found - 3 expected'')"
  "FileImpl_ctor (example_fs good_header) ''a.zeno'' = Inr (opened good_header False 60 0 [])"
  by code_simp+

text \<open>
  Claim C6. With the right magic number and version the constructor still does not
  complete on every file of at least 60 bytes: the archive below announces one article
  and eight bytes of pointers and holds them, so the read stores eight bytes into a vector
  of four. Line 250 of the source bounds the chunk it reads by the size of its buffer;
  the read of line 74 is not bounded.
\<close>

theorem FileImpl_ctor_pointer_overrun:
  "headerSize \<le> length overlong_pointers
   \<and> rMagic (take headerSize overlong_pointers) = 1439867043
   \<and> rVersion (take headerSize overlong_pointers) = 3
   \<and> unat (rCount (take headerSize overlong_pointers)) = 1
   \<and> unat (rIndexPtrLen (take headerSize overlong_pointers)) = 8
   \<and> take 8 (drop (unat (rIndexPtrPos (take headerSize overlong_pointers))) overlong_pointers)
       = toLittleEndian 4 7 @ toLittleEndian 4 5
   \<and> FileImpl_ctor (example_fs overlong_pointers) ''a.zeno'' = Inl BufferOverrun"
  by code_simp

lemma fromLittleEndian_zeros: "fromLittleEndian (replicate n (CHR 0x00)) = 0"
  by (induction n) (simp_all add: fromLittleEndian_def)

lemma FileImpl_ctor_Inr:
  assumes "fs fname = Some bytes" "FileImpl_ctor fs fname = Inr f"
  shows "unat (rIndexPtrLen (take headerSize bytes)) \<le> 4 * unat (rCount (take headerSize bytes))"
    and "indexOffsets f =
      map (\<lambda>i. rIndexPos (take headerSize bytes)
                + ucast (fromLittleEndian
                    (buffer_elem
                      (fill_buffer (unat (rCount (take headerSize bytes)))
                        (fst (stream_read (unat (rIndexPtrLen (take headerSize bytes)))
                               (seekg (rIndexPtrPos (take headerSize bytes))
                                  \<lparr>content = bytes, pos = headerSize, failbit = False,
                                     gcount = headerSize\<rparr>))))
                      i) :: size_type))
        [0..<unat (rCount (take headerSize bytes))]"
  using assms
  by (auto simp: FileImpl_ctor_Some[of fs fname bytes] Let_def split: if_splits prod.splits)

lemma complete_read_delivers:
  assumes "pointer_read_complete bytes"
  shows "fst (stream_read (unat (rIndexPtrLen (take headerSize bytes)))
               (seekg (rIndexPtrPos (take headerSize bytes))
                  \<lparr>content = bytes, pos = headerSize, failbit = False, gcount = headerSize\<rparr>))
         = pointer_block bytes"
    and "length (pointer_block bytes) = unat (rIndexPtrLen (take headerSize bytes))"
proof -
  from assms have small: "\<not> 0x8000000000000000 \<le> rIndexPtrPos (take headerSize bytes)"
    and fits: "unat (rIndexPtrPos (take headerSize bytes)) + unat (rIndexPtrLen (take headerSize bytes))
         \<le> length bytes"
    by (simp_all add: pointer_read_complete_def not_le)
  from small show "fst (stream_read (unat (rIndexPtrLen (take headerSize bytes)))
               (seekg (rIndexPtrPos (take headerSize bytes))
                  \<lparr>content = bytes, pos = headerSize, failbit = False, gcount = headerSize\<rparr>))
         = pointer_block bytes"
    by (simp add: pointer_block_def seekg_def stream_read_def Let_def)
  from fits show "length (pointer_block bytes) = unat (rIndexPtrLen (take headerSize bytes))"
    unfolding pointer_block_def length_take length_drop by linarith
qed

text \<open>
  Claim C7, as stated, fails: the constructor reads \<^verbatim>\<open>rIndexPtrLen\<close> bytes and not
  \<^verbatim>\<open>rCount\<close> pointers. The archive below announces two articles and four bytes of
  pointers and holds the pointers 7 and 5; the constructor completes with a good stream,
  and element 1 of the table is the index position plus zero, not plus 5.
\<close>

theorem FileImpl_ctor_offset_table_counterexample:
  "FileImpl_ctor (example_fs short_pointer_length) ''a.zeno''
     = Inr (opened short_pointer_length False 64 4 [0x4b, 0x44])
   \<and> unat (rCount (take headerSize short_pointer_length)) = 2
   \<and> rIndexPos (take headerSize short_pointer_length) = 0x44
   \<and> unat (rIndexPtrPos (take headerSize short_pointer_length)) = 0x3c
   \<and> (fromLittleEndian (take 4 (drop (0x3c + 4 * 1) short_pointer_length)) :: size_type) = 5
   \<and> indexOffsets (opened short_pointer_length False 64 4 [0x4b, 0x44]) ! 1 \<noteq> 0x44 + 5"
  by code_simp


text \<open>
  Claim C7, amended. When the constructor completes, the offset table has as many
  elements as the header's article count. When moreover the file holds the
  \<^verbatim>\<open>rIndexPtrLen\<close> bytes of the pointer block, element \<open>i\<close> is the index position plus
  the 32-bit little-endian number at byte \<open>4 * i\<close> of that block followed by zero bytes:
  the index position plus pointer \<open>i\<close> of the file for every pointer that lies within
  the block, in the order of the file, and the index position itself for every element
  that lies beyond it.
\<close>

theorem FileImpl_ctor_offset_table:
  assumes "fs fname = Some bytes" "FileImpl_ctor fs fname = Inr f"
  shows "length (indexOffsets f) = unat (rCount (take headerSize bytes))
       \<and> (pointer_read_complete bytes \<longrightarrow>
            (\<forall>i<unat (rCount (take headerSize bytes)).
               indexOffsets f ! i
                 = rIndexPos (take headerSize bytes)
                   + ucast (fromLittleEndian
                       (take 4 (drop (4 * i)
                          (pointer_block bytes
                           @ replicate (4 * unat (rCount (take headerSize bytes))
                                        - unat (rIndexPtrLen (take headerSize bytes))) (CHR 0x00))))
                      :: size_type))
          \<and> (\<forall>i. 4 * i + 4 \<le> unat (rIndexPtrLen (take headerSize bytes)) \<longrightarrow>
               i < unat (rCount (take headerSize bytes))
               \<and> indexOffsets f ! i
                 = rIndexPos (take headerSize bytes)
                   + ucast (fromLittleEndian
                       (take 4 (drop (unat (rIndexPtrPos (take headerSize bytes)) + 4 * i) bytes))
                      :: size_type))
          \<and> (\<forall>i<unat (rCount (take headerSize bytes)).
               unat (rIndexPtrLen (take headerSize bytes)) \<le> 4 * i \<longrightarrow>
               indexOffsets f ! i = rIndexPos (take headerSize bytes)))"
proof -
  define header where "header = take headerSize bytes"
  define count where "count = unat (rCount header)"
  define len where "len = unat (rIndexPtrLen header)"
  define p where "p = unat (rIndexPtrPos header)"
  define zeros where "zeros = replicate (4 * count - len) (CHR 0x00)"
  note ok = FileImpl_ctor_Inr[OF assms, folded header_def count_def len_def]
  from ok(2) have length: "length (indexOffsets f) = count"
    by simp
  have rest: "(\<forall>i<count. indexOffsets f ! i
          = rIndexPos header
            + ucast (fromLittleEndian (take 4 (drop (4 * i) (pointer_block bytes @ zeros))) :: size_type))
      \<and> (\<forall>i. 4 * i + 4 \<le> len \<longrightarrow> i < count
            \<and> indexOffsets f ! i
               = rIndexPos header
                 + ucast (fromLittleEndian (take 4 (drop (p + 4 * i) bytes)) :: size_type))
      \<and> (\<forall>i<count. len \<le> 4 * i \<longrightarrow> indexOffsets f ! i = rIndexPos header)"
    if c: "pointer_read_complete bytes"
  proof -
    note d = complete_read_delivers[OF c, folded header_def len_def]
    have buffer: "fill_buffer count (pointer_block bytes) = pointer_block bytes @ zeros"
      using d(2) by (simp add: fill_buffer_def zeros_def)
    have elem: "indexOffsets f ! i
          = rIndexPos header
            + ucast (fromLittleEndian (take 4 (drop (4 * i) (pointer_block bytes @ zeros))) :: size_type)"
      if "i < count" for i
      using that ok(2) by (simp add: d(1) buffer buffer_elem_def)
    have ptr: "i < count \<and> indexOffsets f ! i
               = rIndexPos header
                 + ucast (fromLittleEndian (take 4 (drop (p + 4 * i) bytes)) :: size_type)"
      if l: "4 * i + 4 \<le> len" for i
    proof -
      from l ok(1) have i: "i < count"
        by simp
      have "drop (4 * i) (pointer_block bytes) = take (len - 4 * i) (drop (p + 4 * i) bytes)"
        by (simp add: pointer_block_def header_def[symmetric] len_def[symmetric] p_def[symmetric]
              drop_take add.commute)
      moreover from l d(2) have "take 4 (drop (4 * i) (pointer_block bytes @ zeros))
          = take 4 (drop (4 * i) (pointer_block bytes))"
        by simp
      moreover from l have "take 4 (take (len - 4 * i) (drop (p + 4 * i) bytes))
          = take 4 (drop (p + 4 * i) bytes)"
        by (simp add: take_take min_def)
      ultimately have "take 4 (drop (4 * i) (pointer_block bytes @ zeros))
          = take 4 (drop (p + 4 * i) bytes)"
        by simp
      with elem[OF i] i show ?thesis
        by simp
    qed
    have base: "indexOffsets f ! i = rIndexPos header" if i: "i < count" and l: "len \<le> 4 * i" for i
    proof -
      from l d(2) have "drop (4 * i) (pointer_block bytes @ zeros)
          = replicate (4 * count - len - (4 * i - len)) (CHR 0x00)"
        by (simp add: zeros_def)
      then have "(fromLittleEndian (take 4 (drop (4 * i) (pointer_block bytes @ zeros))) :: size_type) = 0"
        by (simp add: fromLittleEndian_zeros)
      with elem[OF i] show ?thesis
        by simp
    qed
    from elem ptr base show ?thesis
      by blast
  qed
  from length rest show ?thesis
    unfolding header_def count_def len_def p_def zeros_def by blast
qed

theorem FileImpl_ctor_offset_table_witness:
  "FileImpl_ctor (example_fs two_pointers) ''a.zeno''
     = Inr (opened two_pointers False 68 8 [0x4b, 0x49])
   \<and> pointer_read_complete two_pointers
   \<and> length (indexOffsets (opened two_pointers False 68 8 [0x4b, 0x49])) = 2
   \<and> indexOffsets (opened two_pointers False 68 8 [0x4b, 0x49]) ! 1 = 0x44 + 5"
proof -
  have fs: "example_fs two_pointers ''a.zeno'' = Some two_pointers"
    by (simp add: example_fs_def)
  have c: "FileImpl_ctor (example_fs two_pointers) ''a.zeno''
     = Inr (opened two_pointers False 68 8 [0x4b, 0x49])"
    by code_simp
  have r: "pointer_read_complete two_pointers"
    by code_simp
  have h: "unat (rCount (take headerSize two_pointers)) = 2"
    "unat (rIndexPtrLen (take headerSize two_pointers)) = 8"
    "unat (rIndexPtrPos (take headerSize two_pointers)) = 0x3c"
    "rIndexPos (take headerSize two_pointers) = 0x44"
    by code_simp+
  have e: "(fromLittleEndian (take 4 (drop (0x3c + 4 * 1) two_pointers)) :: size_type) = 5"
    by code_simp
  from FileImpl_ctor_offset_table[of "example_fs two_pointers" "''a.zeno''" two_pointers, OF fs c] r
  have "length (indexOffsets (opened two_pointers False 68 8 [0x4b, 0x49]))
          = unat (rCount (take headerSize two_pointers))"
    and "\<forall>i. 4 * i + 4 \<le> unat (rIndexPtrLen (take headerSize two_pointers)) \<longrightarrow>
           indexOffsets (opened two_pointers False 68 8 [0x4b, 0x49]) ! i
             = rIndexPos (take headerSize two_pointers)
               + ucast (fromLittleEndian
                   (take 4 (drop (unat (rIndexPtrPos (take headerSize two_pointers)) + 4 * i) two_pointers))
                  :: size_type)"
    by blast+
  from this(1) this(2)[rule_format, of 1] h e
  have "length (indexOffsets (opened two_pointers False 68 8 [0x4b, 0x49])) = 2
    \<and> indexOffsets (opened two_pointers False 68 8 [0x4b, 0x49]) ! 1 = 0x44 + 5"
    by simp
  with c r show ?thesis
    by simp
qed


text \<open>
  Claim C3. The read of the index-pointer table is not tested. The file below announces
  two pointers and holds the first only: the constructor completes, the second element
  of the table is the index position plus zero, and the stream is left failed.
\<close>

theorem FileImpl_ctor_truncated_pointers:
  "FileImpl_ctor (example_fs truncated_pointers) ''a.zeno''
     = Inr (opened truncated_pointers True 64 4 [0x4b, 0x44])"
  by code_simp

section \<open>Errors of the index accessors\<close>

lemma readDataNolock_loop_Inl:
  "readDataNolock_loop count data f = Inl e \<Longrightarrow>
     e = ZenoFileFormatError ''format-error: error reading data''"
proof (induction count data f rule: readDataNolock_loop.induct)
  case (1 count data f)
  obtain buffer zf where r: "stream_read (min 256 count) (zenoFile f) = (buffer, zf)"
    by (cases "stream_read (min 256 count) (zenoFile f)")
  show ?case
  proof (cases "0 < count \<and> \<not> failbit zf")
    case True
    with "1.prems" r have "readDataNolock_loop (count - gcount zf) (data @ take (gcount zf) buffer)
        (f\<lparr>zenoFile := zf\<rparr>) = Inl e"
      by (simp add: readDataNolock_loop.simps[of count])
    with "1.IH"[OF _ refl r[symmetric]] True show ?thesis
      by simp
  next
    case False
    with "1.prems" r show ?thesis
      by (auto simp: readDataNolock_loop.simps[of count] split: if_splits)
  qed
qed

lemma readDirentNolock_at_Inl:
  assumes "readDirentNolock_at D off f = Inl e"
  shows "e \<noteq> ZenoFileFormatError ''article index out of range''"
proof -
  define g where "g = f\<lparr>zenoFile := seekg off (zenoFile f)\<rparr>"
  obtain header zf where r: "stream_read 26 (zenoFile g) = (header, zf)"
    by (cases "stream_read 26 (zenoFile g)")
  from assms r have
    "e = ZenoFileFormatError (''format-error: can't read index-header in '' @ [CHR 0x22] @ filename g @ [CHR 0x22])
     \<or> readDataNolock_loop (getExtraLen D (Dirent D header)) [] (g\<lparr>zenoFile := zf\<rparr>) = Inl e"
    by (auto simp: readDirentNolock_at_def readDirentNolock_def readDataNolock_def Let_def
          g_def[symmetric] split: if_splits sum.splits)
  then show ?thesis
    by (auto dest: readDataNolock_loop_Inl)
qed

lemma getDirent_out_of_range:
  "getDirent D idx f = Inl (ZenoFileFormatError ''article index out of range'')
     \<longleftrightarrow> getCountArticles f \<le> idx"
  by (auto simp: getDirent_def dest: readDirentNolock_at_Inl)

lemma getArticle_idx_eq:
  "getArticle_idx D idx f =
     (case getDirent D idx f of
        Inl e \<Rightarrow> Inl e
      | Inr (d, f') \<Rightarrow> Inr (\<lparr>article_idx = idx, article_dirent = d\<rparr>, f'))"
  by (simp add: getArticle_idx_def getDirent_def)

text \<open>
  Claim C8, as stated, fails: nothing in the source clears the failed state of the
  stream, so once a read has failed every later seek is ignored and every later read
  fails. The constructor completes on the archive below with the stream failed (its read
  of the pointer table is not tested); the table has one element, the bytes at its offset
  decode to the entry \<open>(A, x)\<close>, and both accessors throw the index-header error for
  index 0.
\<close>

theorem index_accessors_failed_stream:
  "FileImpl_ctor (example_fs missing_pointers) ''a.zeno''
     = Inr (opened missing_pointers True 87 0 [0x3c])
   \<and> 0 < getCountArticles (opened missing_pointers True 87 0 [0x3c])
   \<and> dirent_of example_ops (opened missing_pointers True 87 0 [0x3c]) 0
       = Some (example_header (CHR ''A'') ''x'', ''x'')
   \<and> getDirent example_ops 0 (opened missing_pointers True 87 0 [0x3c])
       = Inl (ZenoFileFormatError
               (''format-error: can't read index-header in '' @ [CHR 0x22] @ ''a.zeno''
                  @ [CHR 0x22]))
   \<and> getArticle_idx example_ops 0 (opened missing_pointers True 87 0 [0x3c])
       = Inl (ZenoFileFormatError
               (''format-error: can't read index-header in '' @ [CHR 0x22] @ ''a.zeno''
                  @ [CHR 0x22]))"
  by code_simp

text \<open>
  Claim C8, amended. \<^verbatim>\<open>getDirent(idx)\<close> and \<^verbatim>\<open>getArticle(idx)\<close> raise the out-of-range
  error (the exception with the message \<^verbatim>\<open>article index out of range\<close>) exactly when
  \<^verbatim>\<open>idx \<ge> getCountArticles()\<close>. For a smaller index, on an archive whose stream no
  earlier read has left failed, and bytes at the offset that decode to an entry \<open>d\<close>,
  both return without error: the entry \<open>d\<close>, and the article made of \<open>idx\<close> and \<open>d\<close>.
\<close>

theorem index_accessors_range:
  "(getDirent D idx f = Inl (ZenoFileFormatError ''article index out of range'')
      \<longleftrightarrow> getCountArticles f \<le> idx)
   \<and> (getArticle_idx D idx f = Inl (ZenoFileFormatError ''article index out of range'')
      \<longleftrightarrow> getCountArticles f \<le> idx)
   \<and> (idx < getCountArticles f \<longrightarrow> \<not> failbit (zenoFile f) \<longrightarrow> dirent_of D f idx = Some d \<longrightarrow>
        (\<exists>f'. getDirent D idx f = Inr (d, f')
            \<and> getArticle_idx D idx f = Inr (\<lparr>article_idx = idx, article_dirent = d\<rparr>, f')))"
proof (intro conjI impI)
  show "getDirent D idx f = Inl (ZenoFileFormatError ''article index out of range'')
      \<longleftrightarrow> getCountArticles f \<le> idx"
    by (rule getDirent_out_of_range)
  show "getArticle_idx D idx f = Inl (ZenoFileFormatError ''article index out of range'')
      \<longleftrightarrow> getCountArticles f \<le> idx"
    using getDirent_out_of_range[of D idx f]
    by (auto simp: getArticle_idx_eq split: sum.splits)
next
  assume "idx < getCountArticles f" "\<not> failbit (zenoFile f)" "dirent_of D f idx = Some d"
  then obtain f' where "getDirent D idx f = Inr (d, f')"
    using getDirent_ok[of f idx D d] by blast
  then show "\<exists>f'. getDirent D idx f = Inr (d, f')
            \<and> getArticle_idx D idx f = Inr (\<lparr>article_idx = idx, article_dirent = d\<rparr>, f')"
    by (simp add: getArticle_idx_eq)
qed

theorem index_accessors_range_witness:
  "getDirent example_ops 2 ex1 = Inl (ZenoFileFormatError ''article index out of range'')
   \<and> getArticle_idx example_ops 2 ex1 = Inl (ZenoFileFormatError ''article index out of range'')
   \<and> (\<exists>f'. getDirent example_ops 1 ex1 = Inr ((example_header (CHR ''B'') ''y'', ''y''), f')
          \<and> getArticle_idx example_ops 1 ex1
              = Inr (\<lparr>article_idx = 1, article_dirent = (example_header (CHR ''B'') ''y'', ''y'')\<rparr>, f'))"
proof -
  have c: "getCountArticles ex1 = 2"
    by code_simp
  have nf: "\<not> failbit (zenoFile ex1)"
    by code_simp
  have d: "dirent_of example_ops ex1 1 = Some (example_header (CHR ''B'') ''y'', ''y'')"
    by code_simp
  from index_accessors_range[of example_ops 2 ex1] c
  have "getDirent example_ops 2 ex1 = Inl (ZenoFileFormatError ''article index out of range'')"
    "getArticle_idx example_ops 2 ex1 = Inl (ZenoFileFormatError ''article index out of range'')"
    by simp_all
  moreover from index_accessors_range[of example_ops 1 ex1 "(example_header (CHR ''B'') ''y'', ''y'')"] c nf d
  have "\<exists>f'. getDirent example_ops 1 ex1 = Inr ((example_header (CHR ''B'') ''y'', ''y''), f')
          \<and> getArticle_idx example_ops 1 ex1
              = Inr (\<lparr>article_idx = 1, article_dirent = (example_header (CHR ''B'') ''y'', ''y'')\<rparr>, f')"
    by simp
  ultimately show ?thesis
    by blast
qed

section \<open>Lookup in the absence of the namespace\<close>

text \<open>
  Claim C9. When the namespace of the key does not occur in the string that
  \<^verbatim>\<open>getNamespaces()\<close> returns, \<^verbatim>\<open>findArticle\<close> returns not-found with index 0,
  whatever the title and the comparison mode. In the example the key
  \<open>(C, z)\<close> would be inserted at index 2 of a table of two entries.
\<close>

theorem findArticle_absent_namespace:
  "getNamespaces D f = Inr (nss, f0) \<Longrightarrow> ns \<notin> set nss \<Longrightarrow>
     findArticle D ns title collate f = Inr ((False, 0), f0)"
  by (simp add: findArticle_def)

theorem findArticle_absent_namespace_witness:
  "getNamespaces example_ops ex1 = Inr (''AB'', ex1_cached)
   \<and> CHR ''C'' \<notin> set ''AB''
   \<and> findArticle example_ops (CHR ''C'') ''z'' False ex1 = Inr ((False, 0), ex1_cached)"
proof -
  have h: "getNamespaces example_ops ex1 = Inr (''AB'', ex1_cached)"
    by code_simp
  have n: "CHR ''C'' \<notin> set ''AB''"
    by simp
  from findArticle_absent_namespace[OF h n] h n show ?thesis
    by simp
qed

lemma FileImpl_ctor_namespaces:
  assumes "FileImpl_ctor fs fname = Inr f"
  shows "namespaces f = []"
proof (cases "fs fname")
  case None
  with assms show ?thesis
    by (simp add: FileImpl_ctor_def ifstream_open_def)
next
  case (Some bytes)
  with assms show ?thesis
    by (auto simp: FileImpl_ctor_Some[of fs fname bytes] Let_def split: if_splits prod.splits)
qed

text \<open>
  Claim C10. On an archive with no articles and an empty namespace cache (the constructor
  leaves the cache empty, and only a call of \<^verbatim>\<open>getNamespaces()\<close> that returns fills it),
  \<^verbatim>\<open>getNamespaces()\<close> raises the out-of-range error of \<^verbatim>\<open>getDirent(0)\<close>, and so does
  \<^verbatim>\<open>findArticle\<close>.
\<close>

theorem empty_archive_raises:
  "getCountArticles f = 0 \<Longrightarrow> namespaces f = [] \<Longrightarrow>
     getNamespaces D f = Inl (ZenoFileFormatError ''article index out of range'')
     \<and> findArticle D ns title collate f = Inl (ZenoFileFormatError ''article index out of range'')"
  by (simp add: findArticle_def getNamespaces_def getDirent_def)

theorem empty_archive_raises_witness:
  "getCountArticles ex0 = 0 \<and> namespaces ex0 = []
   \<and> getNamespaces example_ops ex0 = Inl (ZenoFileFormatError ''article index out of range'')
   \<and> findArticle example_ops (CHR ''A'') ''x'' False ex0
        = Inl (ZenoFileFormatError ''article index out of range'')"
proof -
  have c: "getCountArticles ex0 = 0"
    by (simp add: ex0_def example_file_def getCountArticles_def)
  have n: "namespaces ex0 = []"
    by (simp add: ex0_def example_file_def)
  from empty_archive_raises[OF c n] c n show ?thesis
    by simp
qed

section \<open>Namespace runs of a sorted archive\<close>

lemma archive_length: "archive D f ds \<Longrightarrow> getCountArticles f = length ds"
  by (auto simp: archive_def dest: arg_cong[where f = length])

lemma archive_nth:
  assumes "archive D f ds" "i < length ds"
  shows "dirent_of D f i = Some (ds ! i)"
proof -
  from assms have "map (dirent_of D f) [0..<getCountArticles f] ! i = map Some ds ! i"
    by (simp add: archive_def)
  with assms archive_length[OF assms(1)] show ?thesis
    by simp
qed

lemma archive_unchanged: "archive D f ds \<Longrightarrow> unchanged f f' \<Longrightarrow> archive D f' ds"
  by (simp add: archive_def unchanged_def dirent_of_def[abs_def] getCountArticles_def)

lemma archive_namespaces_update [simp]:
  "archive D (f\<lparr>namespaces := x\<rparr>) ds = archive D f ds"
  by (simp add: archive_def dirent_of_def[abs_def] getCountArticles_def)

lemma archive_getDirent:
  assumes "archive D f ds" "i < length ds"
  shows "\<exists>f'. getDirent D i f = Inr (ds ! i, f') \<and> unchanged f f'"
  using assms archive_nth[OF assms] archive_length[OF assms(1)]
  by (intro getDirent_ok) (simp_all add: archive_def)

lemma archive_iff_getDirent:
  "archive D f ds \<longleftrightarrow>
     \<not> failbit (zenoFile f) \<and> length ds = getCountArticles f
     \<and> (\<forall>i<length ds. \<exists>f'. getDirent D i f = Inr (ds ! i, f'))"
proof
  assume a: "archive D f ds"
  then show "\<not> failbit (zenoFile f) \<and> length ds = getCountArticles f
     \<and> (\<forall>i<length ds. \<exists>f'. getDirent D i f = Inr (ds ! i, f'))"
    using archive_getDirent[OF a] archive_length[OF a] by (auto simp: archive_def)
next
  assume r: "\<not> failbit (zenoFile f) \<and> length ds = getCountArticles f
     \<and> (\<forall>i<length ds. \<exists>f'. getDirent D i f = Inr (ds ! i, f'))"
  have "map (dirent_of D f) [0..<getCountArticles f] = map Some ds"
  proof (rule nth_equalityI)
    show "length (map (dirent_of D f) [0..<getCountArticles f]) = length (map Some ds)"
      using r by simp
  next
    fix i assume "i < length (map (dirent_of D f) [0..<getCountArticles f])"
    then have i: "i < length ds"
      using r by simp
    with r obtain f' where "getDirent D i f = Inr (ds ! i, f')"
      by blast
    from getDirent_Inr[OF this] i r
    show "map (dirent_of D f) [0..<getCountArticles f] ! i = map Some ds ! i"
      by simp
  qed
  with r show "archive D f ds"
    by (simp add: archive_def)
qed

lemma sorted_by_key_namespace:
  assumes "sorted_by_key D ds"
  shows "sorted (map (getNamespace D) ds)"
proof -
  have "sorted_wrt (\<lambda>a b. getNamespace D a \<le> getNamespace D b) ds"
    using assms unfolding sorted_by_key_def sorted_wrt_map
    by (rule sorted_wrt_mono_rel[rotated]) (auto simp: key_less_def entry_key_def)
  then show ?thesis
    by (simp add: sorted_map)
qed

lemma getNamespaceEndOffset_loop_archive:
  "archive D f ds \<Longrightarrow> lower < upper \<Longrightarrow> upper \<le> length ds \<Longrightarrow>
   upper = length ds \<or> ch < getNamespace D (ds ! upper) \<Longrightarrow>
   lower = 0 \<or> getNamespace D (ds ! lower) \<le> ch \<Longrightarrow>
     \<exists>l f'. getNamespaceEndOffset_loop D ch lower upper f = Inr ((l, Suc l), f')
        \<and> unchanged f f' \<and> Suc l \<le> length ds
        \<and> (Suc l = length ds \<or> ch < getNamespace D (ds ! Suc l))
        \<and> (l = 0 \<or> getNamespace D (ds ! l) \<le> ch)"
proof (induction D ch lower upper f rule: getNamespaceEndOffset_loop.induct)
  case (1 D ch lower upper f)
  show ?case
  proof (cases "1 < upper - lower")
    case False
    with "1.prems" have "upper = Suc lower"
      by simp
    with "1.prems" False show ?thesis
      by (simp add: getNamespaceEndOffset_loop.simps[of D ch lower "Suc lower"] unchanged_refl)
  next
    case True
    define m where "m = lower + (upper - lower) div 2"
    from True have m: "lower < m" "m < upper"
      by (simp_all add: m_def)
    with "1.prems" have "m < length ds"
      by simp
    from archive_getDirent[OF "1.prems"(1) this] obtain g where
      gd: "getDirent D m f = Inr (ds ! m, g)" and u: "unchanged f g"
      by blast
    from archive_unchanged[OF "1.prems"(1) u] have ag: "archive D g ds" .
    show ?thesis
    proof (cases "ch < getNamespace D (ds ! m)")
      case lt: True
      from True gd lt have unf: "getNamespaceEndOffset_loop D ch lower upper f
          = getNamespaceEndOffset_loop D ch lower m g"
        by (simp add: getNamespaceEndOffset_loop.simps[of D ch lower upper] m_def[symmetric])
      from "1.IH"(1)[OF True m_def gd refl lt ag m(1)] m "1.prems" lt
      obtain l f' where "getNamespaceEndOffset_loop D ch lower m g = Inr ((l, Suc l), f')"
        "unchanged g f'" "Suc l \<le> length ds"
        "Suc l = length ds \<or> ch < getNamespace D (ds ! Suc l)"
        "l = 0 \<or> getNamespace D (ds ! l) \<le> ch"
        by auto
      with unf u show ?thesis
        by (auto intro: unchanged_trans)
    next
      case ge: False
      from True gd ge have unf: "getNamespaceEndOffset_loop D ch lower upper f
          = getNamespaceEndOffset_loop D ch m upper g"
        by (simp add: getNamespaceEndOffset_loop.simps[of D ch lower upper] m_def[symmetric])
      from ge have le: "getNamespace D (ds ! m) \<le> ch"
        by simp
      from "1.IH"(2)[OF True m_def gd refl ge ag m(2)] m "1.prems" le
      obtain l f' where "getNamespaceEndOffset_loop D ch m upper g = Inr ((l, Suc l), f')"
        "unchanged g f'" "Suc l \<le> length ds"
        "Suc l = length ds \<or> ch < getNamespace D (ds ! Suc l)"
        "l = 0 \<or> getNamespace D (ds ! l) \<le> ch"
        by auto
      with unf u show ?thesis
        by (auto intro: unchanged_trans)
    qed
  qed
qed

lemma getNamespaceBeginOffset_loop_archive:
  "archive D f ds \<Longrightarrow> lower < upper \<Longrightarrow> upper \<le> length ds \<Longrightarrow>
   upper = length ds \<or> ch \<le> getNamespace D (ds ! upper) \<Longrightarrow>
   lower = 0 \<or> getNamespace D (ds ! lower) < ch \<Longrightarrow>
     \<exists>l f'. getNamespaceBeginOffset_loop D ch lower upper f = Inr ((l, Suc l), f')
        \<and> unchanged f f' \<and> Suc l \<le> length ds
        \<and> (Suc l = length ds \<or> ch \<le> getNamespace D (ds ! Suc l))
        \<and> (l = 0 \<or> getNamespace D (ds ! l) < ch)"
proof (induction D ch lower upper f rule: getNamespaceBeginOffset_loop.induct)
  case (1 D ch lower upper f)
  show ?case
  proof (cases "1 < upper - lower")
    case False
    with "1.prems" have "upper = Suc lower"
      by simp
    with "1.prems" False show ?thesis
      by (simp add: getNamespaceBeginOffset_loop.simps[of D ch lower "Suc lower"] unchanged_refl)
  next
    case True
    define m where "m = lower + (upper - lower) div 2"
    from True have m: "lower < m" "m < upper"
      by (simp_all add: m_def)
    with "1.prems" have "m < length ds"
      by simp
    from archive_getDirent[OF "1.prems"(1) this] obtain g where
      gd: "getDirent D m f = Inr (ds ! m, g)" and u: "unchanged f g"
      by blast
    from archive_unchanged[OF "1.prems"(1) u] have ag: "archive D g ds" .
    show ?thesis
    proof (cases "ch \<le> getNamespace D (ds ! m)")
      case lt: True
      from True gd lt have unf: "getNamespaceBeginOffset_loop D ch lower upper f
          = getNamespaceBeginOffset_loop D ch lower m g"
        by (simp add: getNamespaceBeginOffset_loop.simps[of D ch lower upper] m_def[symmetric])
      from "1.IH"(1)[OF True m_def gd refl lt ag m(1)] m "1.prems" lt
      obtain l f' where "getNamespaceBeginOffset_loop D ch lower m g = Inr ((l, Suc l), f')"
        "unchanged g f'" "Suc l \<le> length ds"
        "Suc l = length ds \<or> ch \<le> getNamespace D (ds ! Suc l)"
        "l = 0 \<or> getNamespace D (ds ! l) < ch"
        by auto
      with unf u show ?thesis
        by (auto intro: unchanged_trans)
    next
      case ge: False
      from True gd ge have unf: "getNamespaceBeginOffset_loop D ch lower upper f
          = getNamespaceBeginOffset_loop D ch m upper g"
        by (simp add: getNamespaceBeginOffset_loop.simps[of D ch lower upper] m_def[symmetric])
      from ge have le: "getNamespace D (ds ! m) < ch"
        by simp
      from "1.IH"(2)[OF True m_def gd refl ge ag m(2)] m "1.prems" le
      obtain l f' where "getNamespaceBeginOffset_loop D ch m upper g = Inr ((l, Suc l), f')"
        "unchanged g f'" "Suc l \<le> length ds"
        "Suc l = length ds \<or> ch \<le> getNamespace D (ds ! Suc l)"
        "l = 0 \<or> getNamespace D (ds ! l) < ch"
        by auto
      with unf u show ?thesis
        by (auto intro: unchanged_trans)
    qed
  qed
qed

lemma sorted_namespace:
  "sorted (map (getNamespace D) ds) \<Longrightarrow> i \<le> j \<Longrightarrow> j < length ds \<Longrightarrow>
     getNamespace D (ds ! i) \<le> getNamespace D (ds ! j)"
  using sorted_nth_mono[of "map (getNamespace D) ds" i j] by simp

lemma getNamespaceEndOffset_archive:
  assumes a: "archive D f ds" and s: "sorted (map (getNamespace D) ds)"
    and ne: "ds \<noteq> []" and first: "getNamespace D (ds ! 0) \<le> ch"
  shows "\<exists>e f'. getNamespaceEndOffset D ch f = Inr (e, f') \<and> unchanged f f'
           \<and> 0 < e \<and> e \<le> length ds
           \<and> (\<forall>i<length ds. i < e \<longleftrightarrow> getNamespace D (ds ! i) \<le> ch)"
proof -
  from ne have "0 < length ds"
    by simp
  from getNamespaceEndOffset_loop_archive[OF a this, of ch]
  obtain l f' where r: "getNamespaceEndOffset_loop D ch 0 (length ds) f = Inr ((l, Suc l), f')"
    and u: "unchanged f f'" and le: "Suc l \<le> length ds"
    and up: "Suc l = length ds \<or> ch < getNamespace D (ds ! Suc l)"
    and lo: "l = 0 \<or> getNamespace D (ds ! l) \<le> ch"
    by auto
  from lo first have lo': "getNamespace D (ds ! l) \<le> ch"
    by auto
  have "i < Suc l \<longleftrightarrow> getNamespace D (ds ! i) \<le> ch" if i: "i < length ds" for i
  proof
    assume "i < Suc l"
    then have "getNamespace D (ds ! i) \<le> getNamespace D (ds ! l)"
      using le by (intro sorted_namespace[OF s]) simp_all
    with lo' show "getNamespace D (ds ! i) \<le> ch"
      by simp
  next
    assume c: "getNamespace D (ds ! i) \<le> ch"
    show "i < Suc l"
    proof (rule ccontr)
      assume "\<not> i < Suc l"
      then have "Suc l \<le> i"
        by simp
      with i up have "ch < getNamespace D (ds ! Suc l)"
        by auto
      moreover from \<open>Suc l \<le> i\<close> i have "getNamespace D (ds ! Suc l) \<le> getNamespace D (ds ! i)"
        by (intro sorted_namespace[OF s])
      ultimately show False
        using c by simp
    qed
  qed
  with r u le archive_length[OF a] show ?thesis
    by (auto simp: getNamespaceEndOffset_def)
qed

lemma getNamespaceBeginOffset_archive:
  assumes a: "archive D f ds" and s: "sorted (map (getNamespace D) ds)" and ne: "ds \<noteq> []"
  shows "\<exists>b f'. getNamespaceBeginOffset D ch f = Inr (b, f') \<and> unchanged f f'
           \<and> b \<le> length ds
           \<and> (\<forall>i<length ds. b \<le> i \<longleftrightarrow> ch \<le> getNamespace D (ds ! i))"
proof -
  from ne have pos: "0 < length ds"
    by simp
  from archive_getDirent[OF a pos] obtain f0 where
    gd: "getDirent D 0 f = Inr (ds ! 0, f0)" and u0: "unchanged f f0"
    by blast
  from archive_unchanged[OF a u0] have a0: "archive D f0 ds" .
  from getNamespaceBeginOffset_loop_archive[OF a0 pos, of ch]
  obtain l f' where r: "getNamespaceBeginOffset_loop D ch 0 (length ds) f0 = Inr ((l, Suc l), f')"
    and u: "unchanged f0 f'" and le: "Suc l \<le> length ds"
    and up: "Suc l = length ds \<or> ch \<le> getNamespace D (ds ! Suc l)"
    and lo: "l = 0 \<or> getNamespace D (ds ! l) < ch"
    by auto
  from gd r archive_length[OF a] have res: "getNamespaceBeginOffset D ch f
      = Inr (if getNamespace D (ds ! 0) < ch then Suc l else l, f')"
    by (simp add: getNamespaceBeginOffset_def)
  have above: "ch \<le> getNamespace D (ds ! i)" if "Suc l \<le> i" "i < length ds" for i
  proof -
    from that up have "ch \<le> getNamespace D (ds ! Suc l)"
      by auto
    moreover from that have "getNamespace D (ds ! Suc l) \<le> getNamespace D (ds ! i)"
      by (intro sorted_namespace[OF s])
    ultimately show ?thesis
      by simp
  qed
  show ?thesis
  proof (cases "getNamespace D (ds ! 0) < ch")
    case True
    with lo have lo': "getNamespace D (ds ! l) < ch"
      by auto
    have "Suc l \<le> i \<longleftrightarrow> ch \<le> getNamespace D (ds ! i)" if i: "i < length ds" for i
    proof
      assume "Suc l \<le> i"
      then show "ch \<le> getNamespace D (ds ! i)"
        using i by (rule above)
    next
      assume c: "ch \<le> getNamespace D (ds ! i)"
      show "Suc l \<le> i"
      proof (rule ccontr)
        assume "\<not> Suc l \<le> i"
        then have "getNamespace D (ds ! i) \<le> getNamespace D (ds ! l)"
          using le by (intro sorted_namespace[OF s]) simp_all
        with lo' c show False
          by simp
      qed
    qed
    with res True u0 u le show ?thesis
      by (auto intro: unchanged_trans)
  next
    case False
    have l0: "l = 0"
    proof (rule ccontr)
      assume "l \<noteq> 0"
      with lo have "getNamespace D (ds ! l) < ch"
        by simp
      moreover have "getNamespace D (ds ! 0) \<le> getNamespace D (ds ! l)"
        using le by (intro sorted_namespace[OF s]) simp_all
      ultimately show False
        using False by simp
    qed
    have "ch \<le> getNamespace D (ds ! i)" if i: "i < length ds" for i
    proof -
      from i have "getNamespace D (ds ! 0) \<le> getNamespace D (ds ! i)"
        by (intro sorted_namespace[OF s]) simp_all
      with False show ?thesis
        by simp
    qed
    with res False l0 u0 u show ?thesis
      by (auto intro: unchanged_trans)
  qed
qed

text \<open>
  Claim C4. On a readable archive whose entries ascend by namespace (as the entries of
  an archive sorted by namespace and title do) and for a namespace \<open>ch\<close> that occurs in
  it, \<^verbatim>\<open>getNamespaceBeginOffset(ch)\<close> returns the first index with namespace \<open>ch\<close> and
  \<^verbatim>\<open>getNamespaceEndOffset(ch)\<close> one past the last: the indices with namespace \<open>ch\<close>
  are exactly those from the first result up to, and not including, the second.
\<close>

theorem namespace_offsets_partition:
  assumes "archive D f ds" "sorted (map (getNamespace D) ds)" "ch \<in> set (map (getNamespace D) ds)"
  shows "\<exists>b e f1 f2.
           getNamespaceBeginOffset D ch f = Inr (b, f1)
         \<and> getNamespaceEndOffset D ch f = Inr (e, f2)
         \<and> b < e \<and> e \<le> length ds
         \<and> getNamespace D (ds ! b) = ch \<and> getNamespace D (ds ! (e - 1)) = ch
         \<and> (\<forall>i<length ds. getNamespace D (ds ! i) = ch \<longleftrightarrow> b \<le> i \<and> i < e)"
proof -
  from assms(3) obtain j where j: "j < length ds" "getNamespace D (ds ! j) = ch"
    by (auto simp: in_set_conv_nth)
  then have ne: "ds \<noteq> []"
    by auto
  from j have first: "getNamespace D (ds ! 0) \<le> ch"
    using sorted_namespace[OF assms(2), of 0 j] by simp
  from getNamespaceBeginOffset_archive[OF assms(1,2) ne, of ch] obtain b f1 where
    b: "getNamespaceBeginOffset D ch f = Inr (b, f1)"
      "\<forall>i<length ds. b \<le> i \<longleftrightarrow> ch \<le> getNamespace D (ds ! i)"
    by blast
  from getNamespaceEndOffset_archive[OF assms(1,2) ne first] obtain e f2 where
    e: "getNamespaceEndOffset D ch f = Inr (e, f2)" "e \<le> length ds"
      "\<forall>i<length ds. i < e \<longleftrightarrow> getNamespace D (ds ! i) \<le> ch"
    by blast
  from b(2) e(3) have iff: "\<forall>i<length ds. getNamespace D (ds ! i) = ch \<longleftrightarrow> b \<le> i \<and> i < e"
    by (auto simp: order_class.order_eq_iff)
  with j have be: "b \<le> j" "j < e"
    by auto
  with e(2) iff have "getNamespace D (ds ! b) = ch" "getNamespace D (ds ! (e - 1)) = ch"
    by auto
  with b(1) e(1,2) be iff show ?thesis
    by auto
qed

theorem namespace_offsets_partition_witness:
  "archive example_ops spec_example spec_entries
   \<and> sorted (map (getNamespace example_ops) spec_entries)
   \<and> CHR ''A'' \<in> set (map (getNamespace example_ops) spec_entries)
   \<and> (\<exists>b e f1 f2.
           getNamespaceBeginOffset example_ops (CHR ''A'') spec_example = Inr (b, f1)
         \<and> getNamespaceEndOffset example_ops (CHR ''A'') spec_example = Inr (e, f2)
         \<and> b < e \<and> e \<le> length spec_entries
         \<and> getNamespace example_ops (spec_entries ! b) = CHR ''A''
         \<and> getNamespace example_ops (spec_entries ! (e - 1)) = CHR ''A''
         \<and> (\<forall>i<length spec_entries.
               getNamespace example_ops (spec_entries ! i) = CHR ''A'' \<longleftrightarrow> b \<le> i \<and> i < e))
   \<and> map_sum id fst (getNamespaceBeginOffset example_ops (CHR ''A'') spec_example) = Inr 0
   \<and> map_sum id fst (getNamespaceEndOffset example_ops (CHR ''A'') spec_example) = Inr 3"
proof -
  have a: "archive example_ops spec_example spec_entries"
    by code_simp
  have s: "sorted (map (getNamespace example_ops) spec_entries)"
    by code_simp
  have c: "CHR ''A'' \<in> set (map (getNamespace example_ops) spec_entries)"
    by code_simp
  have v: "map_sum id fst (getNamespaceBeginOffset example_ops (CHR ''A'') spec_example) = Inr 0"
    "map_sum id fst (getNamespaceEndOffset example_ops (CHR ''A'') spec_example) = Inr 3"
    by code_simp+
  from namespace_offsets_partition[OF a s c] a s c v show ?thesis
    by blast
qed

lemma getNamespaces_loop_archive:
  "archive D f ds \<Longrightarrow> sorted (map (getNamespace D) ds) \<Longrightarrow> j < length ds \<Longrightarrow> d = ds ! j \<Longrightarrow>
     \<exists>f' xs. getNamespaces_loop D d f = Inr f' \<and> archive D f' ds
        \<and> namespaces f' = namespaces f @ xs
        \<and> sorted_wrt (<) (getNamespace D (ds ! j) # xs)
        \<and> set (getNamespace D (ds ! j) # xs) = {getNamespace D (ds ! i) | i. j \<le> i \<and> i < length ds}"
proof (induction D d f arbitrary: j rule: getNamespaces_loop.induct)
  case (1 D d f)
  note a = "1.prems"(1) and s = "1.prems"(2) and j = "1.prems"(3) and d = "1.prems"(4)
  from j have ne: "ds \<noteq> []"
    by auto
  from j have first: "getNamespace D (ds ! 0) \<le> getNamespace D (ds ! j)"
    by (intro sorted_namespace[OF s]) simp_all
  from getNamespaceEndOffset_archive[OF a s ne first] obtain e f1 where
    eo: "getNamespaceEndOffset D (getNamespace D d) f = Inr (e, f1)" and u1: "unchanged f f1"
    and e: "e \<le> length ds"
    and run: "\<forall>i<length ds. i < e \<longleftrightarrow> getNamespace D (ds ! i) \<le> getNamespace D (ds ! j)"
    unfolding d by blast
  from archive_unchanged[OF a u1] have a1: "archive D f1 ds" .
  from archive_length[OF a1] have c1: "getCountArticles f1 = length ds" .
  from run j have je: "j < e"
    by auto
  have same: "getNamespace D (ds ! i) = getNamespace D (ds ! j)" if "j \<le> i" "i < e" for i
  proof -
    from that e have "i < length ds"
      by simp
    with that run have "getNamespace D (ds ! i) \<le> getNamespace D (ds ! j)"
      by blast
    moreover from that e have "getNamespace D (ds ! j) \<le> getNamespace D (ds ! i)"
      by (intro sorted_namespace[OF s]) simp_all
    ultimately show ?thesis
      by simp
  qed
  show ?case
  proof (cases "e < length ds")
    case False
    with e have el: "e = length ds"
      by simp
    from eo c1 el have "getNamespaces_loop D d f = Inr f1"
      by (simp add: getNamespaces_loop.simps[of D d f])
    moreover from u1 have "namespaces f1 = namespaces f @ []"
      by (simp add: unchanged_def)
    moreover have "{getNamespace D (ds ! i) | i. j \<le> i \<and> i < length ds} = {getNamespace D (ds ! j)}"
    proof (intro equalityI subsetI)
      fix x assume "x \<in> {getNamespace D (ds ! i) | i. j \<le> i \<and> i < length ds}"
      then obtain i where "j \<le> i" "i < length ds" "x = getNamespace D (ds ! i)"
        by blast
      with same[of i] el show "x \<in> {getNamespace D (ds ! j)}"
        by simp
    next
      fix x assume "x \<in> {getNamespace D (ds ! j)}"
      with j show "x \<in> {getNamespace D (ds ! i) | i. j \<le> i \<and> i < length ds}"
        by blast
    qed
    ultimately show ?thesis
      using a1 by (intro exI[of _ f1] exI[of _ "[]"]) simp
  next
    case True
    from archive_getDirent[OF a1 True] obtain f2 where
      gd: "getDirent D e f1 = Inr (ds ! e, f2)" and u2: "unchanged f1 f2"
      by blast
    define f3 where "f3 = f2\<lparr>namespaces := namespaces f2 @ [getNamespace D (ds ! e)]\<rparr>"
    from archive_unchanged[OF a1 u2] have a3: "archive D f3 ds"
      by (simp add: f3_def)
    from True c1 have lt: "e < getCountArticles f1"
      by simp
    from eo gd lt have unf: "getNamespaces_loop D d f = getNamespaces_loop D (ds ! e) f3"
      by (simp add: getNamespaces_loop.simps[of D d f] f3_def)
    from "1.IH"[OF eo refl lt gd refl a3[unfolded f3_def] s True refl]
    obtain f' xs where r: "getNamespaces_loop D (ds ! e) f3 = Inr f'"
      and a': "archive D f' ds"
      and n: "namespaces f' = namespaces f3 @ xs"
      and so: "sorted_wrt (<) (getNamespace D (ds ! e) # xs)"
      and se: "set (getNamespace D (ds ! e) # xs) = {getNamespace D (ds ! i) | i. e \<le> i \<and> i < length ds}"
      unfolding f3_def by blast
    from u1 u2 have n3: "namespaces f3 = namespaces f @ [getNamespace D (ds ! e)]"
      by (simp add: f3_def unchanged_def)
    from run True have "\<not> getNamespace D (ds ! e) \<le> getNamespace D (ds ! j)"
      by blast
    then have gt: "getNamespace D (ds ! j) < getNamespace D (ds ! e)"
      by simp
    from so have "\<forall>y\<in>set xs. getNamespace D (ds ! e) < y"
      by (simp add: strict_sorted_simps)
    with gt have "\<forall>y\<in>set xs. getNamespace D (ds ! j) < y"
      by (meson less_trans)
    with gt so have so': "sorted_wrt (<) (getNamespace D (ds ! j) # getNamespace D (ds ! e) # xs)"
      by (simp add: strict_sorted_simps)
    have se': "set (getNamespace D (ds ! j) # getNamespace D (ds ! e) # xs)
        = {getNamespace D (ds ! i) | i. j \<le> i \<and> i < length ds}"
    proof (intro equalityI subsetI)
      fix x assume "x \<in> set (getNamespace D (ds ! j) # getNamespace D (ds ! e) # xs)"
      then have "x = getNamespace D (ds ! j) \<or> x \<in> set (getNamespace D (ds ! e) # xs)"
        by simp
      then have "x = getNamespace D (ds ! j) \<or> (\<exists>i. e \<le> i \<and> i < length ds \<and> x = getNamespace D (ds ! i))"
        unfolding se by blast
      then show "x \<in> {getNamespace D (ds ! i) | i. j \<le> i \<and> i < length ds}"
      proof
        assume "x = getNamespace D (ds ! j)"
        with j show ?thesis
          by blast
      next
        assume "\<exists>i. e \<le> i \<and> i < length ds \<and> x = getNamespace D (ds ! i)"
        then obtain i where "e \<le> i" "i < length ds" "x = getNamespace D (ds ! i)"
          by blast
        moreover from this je have "j \<le> i"
          by simp
        ultimately show ?thesis
          by blast
      qed
    next
      fix x assume "x \<in> {getNamespace D (ds ! i) | i. j \<le> i \<and> i < length ds}"
      then obtain i where i: "j \<le> i" "i < length ds" "x = getNamespace D (ds ! i)"
        by blast
      show "x \<in> set (getNamespace D (ds ! j) # getNamespace D (ds ! e) # xs)"
      proof (cases "i < e")
        case True
        with i same[of i] show ?thesis
          by simp
      next
        case False
        with i have "x \<in> {getNamespace D (ds ! i) | i. e \<le> i \<and> i < length ds}"
          by auto
        then have "x \<in> set (getNamespace D (ds ! e) # xs)"
          unfolding se .
        then show ?thesis
          by simp
      qed
    qed
    from unf r a' n n3 so' se' show ?thesis
      by (intro exI[of _ f'] exI[of _ "getNamespace D (ds ! e) # xs"]) simp
  qed
qed

lemma distinct_remdups_adj_sorted:
  "sorted (xs :: 'a::linorder list) \<Longrightarrow> distinct (remdups_adj xs)"
  by (induction xs rule: remdups_adj.induct) (auto split: if_splits)

lemma getNamespaces_archive:
  assumes "archive D f ds" "sorted (map (getNamespace D) ds)" "ds \<noteq> []" "namespaces f = []"
  shows "\<exists>f'. getNamespaces D f = Inr (remdups_adj (map (getNamespace D) ds), f')
           \<and> archive D f' ds
           \<and> namespaces f' = remdups_adj (map (getNamespace D) ds)
           \<and> distinct (remdups_adj (map (getNamespace D) ds))
           \<and> sorted (remdups_adj (map (getNamespace D) ds))
           \<and> set (remdups_adj (map (getNamespace D) ds)) = getNamespace D ` set ds
           \<and> (\<forall>g. namespaces g = namespaces f' \<longrightarrow>
                 getNamespaces D g = Inr (remdups_adj (map (getNamespace D) ds), g))"
proof -
  define ks where "ks = map (getNamespace D) ds"
  from assms(3) have pos: "0 < length ds"
    by simp
  from archive_getDirent[OF assms(1) pos] obtain f0 where
    gd: "getDirent D 0 f = Inr (ds ! 0, f0)" and u0: "unchanged f f0"
    by blast
  define f1 where "f1 = f0\<lparr>namespaces := [getNamespace D (ds ! 0)]\<rparr>"
  from archive_unchanged[OF assms(1) u0] have a1: "archive D f1 ds"
    by (simp add: f1_def)
  from getNamespaces_loop_archive[OF a1 assms(2) pos refl] obtain f' xs where
    r: "getNamespaces_loop D (ds ! 0) f1 = Inr f'"
    and a': "archive D f' ds"
    and n: "namespaces f' = namespaces f1 @ xs"
    and so: "sorted_wrt (<) (getNamespace D (ds ! 0) # xs)"
    and se: "set (getNamespace D (ds ! 0) # xs) = {getNamespace D (ds ! i) | i. 0 \<le> i \<and> i < length ds}"
    by blast
  from n have n': "namespaces f' = getNamespace D (ds ! 0) # xs"
    by (simp add: f1_def)
  have "{getNamespace D (ds ! i) | i. 0 \<le> i \<and> i < length ds} = set ks"
  proof (intro equalityI subsetI)
    fix x assume "x \<in> {getNamespace D (ds ! i) | i. 0 \<le> i \<and> i < length ds}"
    then obtain i where "i < length ds" "x = getNamespace D (ds ! i)"
      by blast
    then have "i < length ks" "x = ks ! i"
      by (simp_all add: ks_def)
    then show "x \<in> set ks"
      by simp
  next
    fix x assume "x \<in> set ks"
    then obtain i where i: "i < length ks" "ks ! i = x"
      by (auto simp: in_set_conv_nth)
    from i(1) have "i < length ds"
      by (simp add: ks_def)
    moreover from this i(2) have "x = getNamespace D (ds ! i)"
      by (simp add: ks_def)
    ultimately show "x \<in> {getNamespace D (ds ! i) | i. 0 \<le> i \<and> i < length ds}"
      by blast
  qed
  with se n' have set_eq: "set (namespaces f') = set (remdups_adj ks)"
    by simp
  from so have "sorted (getNamespace D (ds ! 0) # xs) \<and> distinct (getNamespace D (ds ! 0) # xs)"
    by (simp only: strict_sorted_iff)
  with n' have "sorted (namespaces f')" "distinct (namespaces f')"
    by simp_all
  moreover from assms(2) have "sorted (remdups_adj ks)" "distinct (remdups_adj ks)"
    by (simp_all add: ks_def distinct_remdups_adj_sorted)
  ultimately have eq: "namespaces f' = remdups_adj ks"
    using set_eq by (intro sorted_distinct_set_unique)
  from gd r assms(4) have res: "getNamespaces D f = Inr (namespaces f', f')"
    by (simp add: getNamespaces_def f1_def)
  from assms(3) have "remdups_adj ks \<noteq> []"
    by (simp add: ks_def)
  then have again: "getNamespaces D g = Inr (remdups_adj ks, g)" if "namespaces g = namespaces f'" for g
    using that eq by (simp add: getNamespaces_def)
  from res a' eq again \<open>sorted (remdups_adj ks)\<close> \<open>distinct (remdups_adj ks)\<close>
  show ?thesis
    unfolding ks_def by (intro exI[of _ f']) simp
qed

text \<open>
  Claim C5. On a readable, non-empty archive whose entries ascend by namespace, the
  first call of \<^verbatim>\<open>getNamespaces()\<close> (the cache is empty) returns the namespaces of
  the table with adjacent repetitions removed: every namespace of the table once, in
  the order of first occurrence, which is ascending. The string is stored in the object,
  and every call on an object that holds it returns it again and changes nothing.
\<close>

theorem getNamespaces_sorted_archive:
  assumes "archive D f ds" "sorted (map (getNamespace D) ds)" "ds \<noteq> []" "namespaces f = []"
  shows "\<exists>f'. getNamespaces D f = Inr (remdups_adj (map (getNamespace D) ds), f')
           \<and> namespaces f' = remdups_adj (map (getNamespace D) ds)
           \<and> distinct (remdups_adj (map (getNamespace D) ds))
           \<and> sorted (remdups_adj (map (getNamespace D) ds))
           \<and> set (remdups_adj (map (getNamespace D) ds)) = getNamespace D ` set ds
           \<and> (\<forall>g. namespaces g = namespaces f' \<longrightarrow>
                 getNamespaces D g = Inr (remdups_adj (map (getNamespace D) ds), g))"
  using getNamespaces_archive[OF assms] by blast

theorem getNamespaces_sorted_archive_witness:
  "archive example_ops spec_example spec_entries
   \<and> sorted (map (getNamespace example_ops) spec_entries)
   \<and> spec_entries \<noteq> [] \<and> namespaces spec_example = []
   \<and> remdups_adj (map (getNamespace example_ops) spec_entries) = ''AB''
   \<and> (\<exists>f'. getNamespaces example_ops spec_example = Inr (''AB'', f')
          \<and> namespaces f' = ''AB''
          \<and> (\<forall>g. namespaces g = namespaces f' \<longrightarrow> getNamespaces example_ops g = Inr (''AB'', g)))"
proof -
  have a: "archive example_ops spec_example spec_entries"
    by code_simp
  have s: "sorted (map (getNamespace example_ops) spec_entries)"
    by code_simp
  have ne: "spec_entries \<noteq> []"
    by code_simp
  have c: "namespaces spec_example = []"
    by code_simp
  have r: "remdups_adj (map (getNamespace example_ops) spec_entries) = ''AB''"
    by code_simp
  from getNamespaces_sorted_archive[OF a s ne c] a s ne c r show ?thesis
    by auto
qed

section \<open>Lookup by key on a sorted archive\<close>

lemma archive_read_at:
  assumes "archive D f ds" "p < length ds"
  shows "\<exists>f'. at_index (indexOffsets f) p = Inr (indexOffsets f ! p)
           \<and> readDirentNolock_at D (indexOffsets f ! p) f = Inr (ds ! p, f') \<and> unchanged f f'"
  using archive_getDirent[OF assms] archive_length[OF assms(1)] assms(2)
  by (auto simp: getDirent_def at_index_def getCountArticles_def)

lemma findArticle_loop_archive:
  "archive D f ds \<Longrightarrow> l < u \<Longrightarrow> u \<le> length ds \<Longrightarrow>
   u = length ds \<or> key_compare D ns title collate (ds ! u) < 0 \<Longrightarrow>
   l = 0 \<or> 0 < key_compare D ns title collate (ds ! l) \<Longrightarrow>
     \<exists>r f'. findArticle_loop D ns title collate l u f = Inr (r, f') \<and> unchanged f f'
        \<and> (case r of
              Return p \<Rightarrow> p < length ds \<and> key_compare D ns title collate (ds ! p) = 0
            | Fallthrough l' u' \<Rightarrow>
                u' = Suc l' \<and> u' \<le> length ds
                \<and> (u' = length ds \<or> key_compare D ns title collate (ds ! u') < 0)
                \<and> (l' = 0 \<or> 0 < key_compare D ns title collate (ds ! l')))"
proof (induction D ns title collate l u f rule: findArticle_loop.induct)
  case (1 D ns title collate l u f)
  show ?case
  proof (cases "1 < u - l")
    case False
    with "1.prems" have "u = Suc l"
      by simp
    with "1.prems" False show ?thesis
      by (simp add: findArticle_loop.simps[of D ns title collate l "Suc l"] unchanged_refl)
  next
    case True
    define p where "p = l + (u - l) div 2"
    from True have p: "l < p" "p < u"
      by (simp_all add: p_def)
    with "1.prems" have pl: "p < length ds"
      by simp
    from archive_read_at[OF "1.prems"(1) pl] obtain g where
      ai: "at_index (indexOffsets f) p = Inr (indexOffsets f ! p)"
      and rd: "readDirentNolock_at D (indexOffsets f ! p) f = Inr (ds ! p, g)"
      and ug: "unchanged f g"
      by blast
    from archive_unchanged[OF "1.prems"(1) ug] have ag: "archive D g ds" .
    define c where "c = key_compare D ns title collate (ds ! p)"
    have c_eq: "c = (if ns < getNamespace D (ds ! p) then - 1
                   else if getNamespace D (ds ! p) < ns then 1
                   else title_compare D collate title (ds ! p))"
      by (simp add: c_def key_compare_def)
    consider (lt) "c < 0" | (gt) "\<not> c < 0" "0 < c" | (eq) "\<not> c < 0" "\<not> 0 < c"
      by blast
    then show ?thesis
    proof cases
      case lt
      from True ai rd lt have unf: "findArticle_loop D ns title collate l u f
          = findArticle_loop D ns title collate l p g"
        by (simp add: findArticle_loop.simps[of D ns title collate l u] p_def[symmetric] c_eq Let_def)
      from lt have "p = length ds \<or> key_compare D ns title collate (ds ! p) < 0"
        by (simp add: c_def)
      from "1.IH"(1)[OF True p_def ai rd refl c_eq lt ag p(1) _ this "1.prems"(5)] pl
      obtain r f' where "findArticle_loop D ns title collate l p g = Inr (r, f')" "unchanged g f'"
        "case r of
              Return p \<Rightarrow> p < length ds \<and> key_compare D ns title collate (ds ! p) = 0
            | Fallthrough l' u' \<Rightarrow>
                u' = Suc l' \<and> u' \<le> length ds
                \<and> (u' = length ds \<or> key_compare D ns title collate (ds ! u') < 0)
                \<and> (l' = 0 \<or> 0 < key_compare D ns title collate (ds ! l'))"
        by auto
      with unf ug show ?thesis
        by (auto intro: unchanged_trans)
    next
      case gt
      from True ai rd gt have unf: "findArticle_loop D ns title collate l u f
          = findArticle_loop D ns title collate p u g"
        by (simp add: findArticle_loop.simps[of D ns title collate l u] p_def[symmetric] c_eq Let_def)
      from gt have "p = 0 \<or> 0 < key_compare D ns title collate (ds ! p)"
        by (simp add: c_def)
      from "1.IH"(2)[OF True p_def ai rd refl c_eq gt ag p(2) "1.prems"(3,4) this]
      obtain r f' where "findArticle_loop D ns title collate p u g = Inr (r, f')" "unchanged g f'"
        "case r of
              Return p \<Rightarrow> p < length ds \<and> key_compare D ns title collate (ds ! p) = 0
            | Fallthrough l' u' \<Rightarrow>
                u' = Suc l' \<and> u' \<le> length ds
                \<and> (u' = length ds \<or> key_compare D ns title collate (ds ! u') < 0)
                \<and> (l' = 0 \<or> 0 < key_compare D ns title collate (ds ! l'))"
        by auto
      with unf ug show ?thesis
        by (auto intro: unchanged_trans)
    next
      case eq
      from True ai rd eq have "findArticle_loop D ns title collate l u f = Inr (Return p, g)"
        by (simp add: findArticle_loop.simps[of D ns title collate l u] p_def[symmetric] c_eq Let_def)
      moreover from eq have "key_compare D ns title collate (ds ! p) = 0"
        by (simp add: c_def)
      ultimately show ?thesis
        using ug pl by simp
    qed
  qed
qed


lemma key_compare_0:
  "key_compare D ns title collate d = 0 \<longleftrightarrow>
     getNamespace D d = ns \<and> title_compare D collate title d = 0"
  by (auto simp: key_compare_def)

lemma findArticle_archive_cases:
  assumes a: "archive D f ds" and s: "sorted (map (getNamespace D) ds)"
    and c: "namespaces f = []" and p: "ns \<in> set (map (getNamespace D) ds)"
  shows "\<exists>f'. (\<exists>p. findArticle D ns title collate f = Inr ((True, p), f')
               \<and> p < length ds \<and> key_compare D ns title collate (ds ! p) = 0)
            \<or> (\<exists>l. findArticle D ns title collate f
                     = Inr (if title_compare D collate title (ds ! l) = 0
                            then (True, l) else (False, Suc l), f')
                 \<and> l < length ds
                 \<and> (Suc l = length ds \<or> key_compare D ns title collate (ds ! Suc l) < 0)
                 \<and> (l = 0 \<or> 0 < key_compare D ns title collate (ds ! l)))"
proof -
  from p have ne: "ds \<noteq> []"
    by auto
  then have pos: "0 < length ds"
    by simp
  from getNamespaces_archive[OF a s ne c] obtain f0 where
    gn: "getNamespaces D f = Inr (remdups_adj (map (getNamespace D) ds), f0)"
    and a0: "archive D f0 ds"
    by blast
  from p have mem: "ns \<in> set (remdups_adj (map (getNamespace D) ds))"
    by simp
  from archive_length[OF a0] have c0: "getCountArticles f0 = length ds" .
  from findArticle_loop_archive[OF a0 pos, of ns title collate]
  obtain r f1 where lp: "findArticle_loop D ns title collate 0 (length ds) f0 = Inr (r, f1)"
    and u1: "unchanged f0 f1"
    and post: "case r of
              Return p \<Rightarrow> p < length ds \<and> key_compare D ns title collate (ds ! p) = 0
            | Fallthrough l' u' \<Rightarrow>
                u' = Suc l' \<and> u' \<le> length ds
                \<and> (u' = length ds \<or> key_compare D ns title collate (ds ! u') < 0)
                \<and> (l' = 0 \<or> 0 < key_compare D ns title collate (ds ! l'))"
    by auto
  from archive_unchanged[OF a0 u1] have a1: "archive D f1 ds" .
  show ?thesis
  proof (cases r)
    case (Return q)
    with gn mem lp c0 have "findArticle D ns title collate f = Inr ((True, q), f1)"
      by (simp add: findArticle_def)
    with post Return show ?thesis
      by auto
  next
    case (Fallthrough l u)
    with post have u: "u = Suc l" and l: "l < length ds"
      and up: "Suc l = length ds \<or> key_compare D ns title collate (ds ! Suc l) < 0"
      and lo: "l = 0 \<or> 0 < key_compare D ns title collate (ds ! l)"
      by auto
    from archive_read_at[OF a1 l] obtain f2 where
      ai: "at_index (indexOffsets f1) l = Inr (indexOffsets f1 ! l)"
      and rd: "readDirentNolock_at D (indexOffsets f1 ! l) f1 = Inr (ds ! l, f2)"
      by blast
    from gn mem lp c0 Fallthrough u ai rd
    have "findArticle D ns title collate f
        = Inr (if title_compare D collate title (ds ! l) = 0 then (True, l) else (False, Suc l), f2)"
      by (simp add: findArticle_def)
    with l up lo show ?thesis
      by blast
  qed
qed

lemma search_sorted_nth:
  assumes "search_sorted D ns title collate ds" "i < j" "j < length ds"
    "0 \<le> key_compare D ns title collate (ds ! j)"
  shows "0 < key_compare D ns title collate (ds ! i)"
  using assms by (auto simp: search_sorted_def sorted_wrt_iff_nth_less)

text \<open>
  What \<^verbatim>\<open>findArticle\<close> does on a readable archive that is sorted for the search, with a
  fresh cache and a namespace that is present: an entry with the key is found at its
  index; an index returned as found holds an entry whose title compares equal; an index
  \<open>u\<close> returned as not found is at least 1, every entry from \<open>u\<close> on is above the key
  and every entry at an index from 1 to \<open>u - 1\<close> is below it.
\<close>

lemma findArticle_sorted_archive:
  assumes a: "archive D f ds" and ss: "search_sorted D ns title collate ds"
    and s: "sorted (map (getNamespace D) ds)"
    and c: "namespaces f = []" and p: "ns \<in> set (map (getNamespace D) ds)"
  shows "\<exists>r f'. findArticle D ns title collate f = Inr (r, f')
     \<and> (\<forall>i<length ds. key_compare D ns title collate (ds ! i) = 0 \<longrightarrow> r = (True, i))
     \<and> (\<forall>i. r = (True, i) \<longrightarrow> i < length ds \<and> title_compare D collate title (ds ! i) = 0)
     \<and> (\<forall>u. r = (False, u) \<longrightarrow> 0 < u \<and> u \<le> length ds
            \<and> (\<forall>j. u \<le> j \<and> j < length ds \<longrightarrow> key_compare D ns title collate (ds ! j) < 0)
            \<and> (\<forall>i. 0 < i \<and> i < u \<longrightarrow> 0 < key_compare D ns title collate (ds ! i)))"
proof -
  let ?kc = "\<lambda>i. key_compare D ns title collate (ds ! i)"
  have above: "?kc j < 0" if "Suc l = length ds \<or> ?kc (Suc l) < 0" "Suc l \<le> j" "j < length ds" for l j
  proof (rule ccontr)
    assume "\<not> ?kc j < 0"
    then have j0: "0 \<le> ?kc j"
      by simp
    from that have neg: "?kc (Suc l) < 0"
      by auto
    with j0 that have "Suc l < j"
      by (cases "Suc l = j") auto
    from search_sorted_nth[OF ss this that(3) j0] neg show False
      by simp
  qed
  have below: "0 < ?kc i" if "l = 0 \<or> 0 < ?kc l" "0 < i" "i \<le> l" "l < length ds" for l i
  proof (cases "i = l")
    case True
    with that show ?thesis
      by auto
  next
    case False
    with that have "i < l" "0 \<le> ?kc l"
      by auto
    with search_sorted_nth[OF ss, of i l] that show ?thesis
      by simp
  qed
  have unique: "i = l" if "i < length ds" "?kc i = 0" "l < length ds"
    "Suc l = length ds \<or> ?kc (Suc l) < 0" "l = 0 \<or> 0 < ?kc l" for i l
  proof -
    have "\<not> Suc l \<le> i"
      using above[OF that(4) _ that(1)] that(2) by auto
    then have il: "i \<le> l"
      by simp
    show ?thesis
    proof (cases "i = 0")
      case True
      show ?thesis
      proof (cases "l = 0")
        case True
        with \<open>i = 0\<close> show ?thesis by simp
      next
        case False
        with that have "0 \<le> ?kc l" "0 < l"
          by auto
        with search_sorted_nth[OF ss, of 0 l] that True show ?thesis
          by simp
      qed
    next
      case False
      with below[OF that(5) _ il that(3)] that(2) show ?thesis
        by simp
    qed
  qed
  have unique0: "i = q" if "i < length ds" "?kc i = 0" "q < length ds" "?kc q = 0" for i q
  proof (rule ccontr)
    assume "i \<noteq> q"
    then consider "i < q" | "q < i"
      by linarith
    then show False
    proof cases
      case 1
      with search_sorted_nth[OF ss 1 that(3)] that show False by simp
    next
      case 2
      with search_sorted_nth[OF ss 2 that(1)] that show False by simp
    qed
  qed
  from findArticle_archive_cases[OF a s c p, of title collate] obtain f' where
    cases: "(\<exists>q. findArticle D ns title collate f = Inr ((True, q), f')
               \<and> q < length ds \<and> ?kc q = 0)
            \<or> (\<exists>l. findArticle D ns title collate f
                     = Inr (if title_compare D collate title (ds ! l) = 0
                            then (True, l) else (False, Suc l), f')
                 \<and> l < length ds
                 \<and> (Suc l = length ds \<or> ?kc (Suc l) < 0)
                 \<and> (l = 0 \<or> 0 < ?kc l))"
    by blast
  then show ?thesis
  proof
    assume "\<exists>q. findArticle D ns title collate f = Inr ((True, q), f')
               \<and> q < length ds \<and> ?kc q = 0"
    then obtain q where r: "findArticle D ns title collate f = Inr ((True, q), f')"
      and q: "q < length ds" "?kc q = 0"
      by blast
    from q have "title_compare D collate title (ds ! q) = 0"
      by (simp add: key_compare_0)
    with r q unique0 show ?thesis
      by (intro exI[of _ "(True, q)"] exI[of _ f']) auto
  next
    assume "\<exists>l. findArticle D ns title collate f
                     = Inr (if title_compare D collate title (ds ! l) = 0
                            then (True, l) else (False, Suc l), f')
                 \<and> l < length ds
                 \<and> (Suc l = length ds \<or> ?kc (Suc l) < 0)
                 \<and> (l = 0 \<or> 0 < ?kc l)"
    then obtain l where r: "findArticle D ns title collate f
                     = Inr (if title_compare D collate title (ds ! l) = 0
                            then (True, l) else (False, Suc l), f')"
      and l: "l < length ds" and up: "Suc l = length ds \<or> ?kc (Suc l) < 0"
      and lo: "l = 0 \<or> 0 < ?kc l"
      by blast
    have found: "i = l \<and> title_compare D collate title (ds ! l) = 0"
      if "i < length ds" "?kc i = 0" for i
    proof -
      from unique[OF that l up lo] have "i = l" .
      with that show ?thesis
        by (simp add: key_compare_0)
    qed
    show ?thesis
    proof (cases "title_compare D collate title (ds ! l) = 0")
      case True
      with r have "findArticle D ns title collate f = Inr ((True, l), f')"
        by simp
      with True l found show ?thesis
        by (intro exI[of _ "(True, l)"] exI[of _ f']) auto
    next
      case False
      with r have r': "findArticle D ns title collate f = Inr ((False, Suc l), f')"
        by simp
      have "\<forall>j. Suc l \<le> j \<and> j < length ds \<longrightarrow> ?kc j < 0"
        using above[OF up] by blast
      moreover have "\<forall>i. 0 < i \<and> i < Suc l \<longrightarrow> 0 < ?kc i"
        using below[OF lo _ _ l] by auto
      ultimately show ?thesis
        using r' l False found
        by (intro exI[of _ "(False, Suc l)"] exI[of _ f']) auto
    qed
  qed
qed


lemma key_compare_exact:
  assumes "three_way (compare D)"
  shows "key_compare D ns title False d = 0 \<longleftrightarrow> entry_key D d = (ns, title)"
    and "key_compare D ns title False d < 0 \<longleftrightarrow> key_less D (ns, title) (entry_key D d)"
    and "0 < key_compare D ns title False d \<longleftrightarrow> key_less D (entry_key D d) (ns, title)"
proof -
  from assms have eq: "compare D a b = 0 \<longleftrightarrow> a = b" and sym: "compare D a b < 0 \<longleftrightarrow> 0 < compare D b a" for a b
    by (auto simp: three_way_def)
  show "key_compare D ns title False d = 0 \<longleftrightarrow> entry_key D d = (ns, title)"
    by (auto simp: key_compare_def title_compare_def entry_key_def eq)
  show "key_compare D ns title False d < 0 \<longleftrightarrow> key_less D (ns, title) (entry_key D d)"
    by (auto simp: key_compare_def title_compare_def entry_key_def key_less_def)
  show "0 < key_compare D ns title False d \<longleftrightarrow> key_less D (entry_key D d) (ns, title)"
    using sym[of "getTitle D d" title]
    by (auto simp: key_compare_def title_compare_def entry_key_def key_less_def)
qed

lemma key_less_trans:
  assumes "three_way (compare D)" "key_less D a b" "key_less D b c"
  shows "key_less D a c"
proof -
  from assms(1) have tr: "compare D x y < 0 \<Longrightarrow> compare D y z < 0 \<Longrightarrow> compare D x z < 0" for x y z
    by (auto simp: three_way_def)
  from assms(2,3) show ?thesis
    by (auto simp: key_less_def intro: tr)
qed

lemma search_sorted_exact:
  assumes t: "three_way (compare D)" and s: "sorted_by_key D ds"
  shows "search_sorted D ns title False ds"
proof -
  have "0 < key_compare D ns title False a"
    if "key_less D (entry_key D a) (entry_key D b)" "0 \<le> key_compare D ns title False b" for a b
  proof -
    from that(2) have "key_compare D ns title False b = 0 \<or> 0 < key_compare D ns title False b"
      by linarith
    then have "entry_key D b = (ns, title) \<or> key_less D (entry_key D b) (ns, title)"
      by (simp add: key_compare_exact[OF t])
    with that(1) have "key_less D (entry_key D a) (ns, title)"
      by (auto intro: key_less_trans[OF t])
    then show ?thesis
      by (simp add: key_compare_exact[OF t])
  qed
  then have imp: "key_less D (entry_key D a) (entry_key D b) \<Longrightarrow>
      0 \<le> key_compare D ns title False b \<longrightarrow> 0 < key_compare D ns title False a" for a b
    by blast
  from s have "sorted_wrt (\<lambda>x y. key_less D (entry_key D x) (entry_key D y)) ds"
    by (simp add: sorted_by_key_def sorted_wrt_map)
  then show ?thesis
    unfolding search_sorted_def
    by (rule sorted_wrt_mono_rel[rotated]) (rule imp)
qed

text \<open>
  The same for the byte-exact mode on an archive sorted by key, in terms of the keys.
\<close>

lemma findArticle_sorted_by_key:
  assumes a: "archive D f ds" and s: "sorted_by_key D ds" and t: "three_way (compare D)"
    and c: "namespaces f = []" and p: "ns \<in> set (map (getNamespace D) ds)"
  shows "\<exists>r f'. findArticle D ns title False f = Inr (r, f')
     \<and> (\<forall>i<length ds. entry_key D (ds ! i) = (ns, title) \<longrightarrow> r = (True, i))
     \<and> (\<forall>i. r = (True, i) \<longrightarrow> i < length ds \<and> getTitle D (ds ! i) = title)
     \<and> (\<forall>u. r = (False, u) \<longrightarrow> 0 < u \<and> u \<le> length ds
            \<and> (\<forall>j. u \<le> j \<and> j < length ds \<longrightarrow> key_less D (ns, title) (entry_key D (ds ! j)))
            \<and> (\<forall>i. 0 < i \<and> i < u \<longrightarrow> key_less D (entry_key D (ds ! i)) (ns, title)))"
proof -
  from t have eq: "compare D a b = 0 \<longleftrightarrow> a = b" for a b
    by (auto simp: three_way_def)
  note kc = key_compare_exact[OF t, of ns title]
  from findArticle_sorted_archive[OF a search_sorted_exact[OF t s] sorted_by_key_namespace[OF s] c p,
      of title]
  obtain r f' where r: "findArticle D ns title False f = Inr (r, f')"
    and found: "\<And>i. i < length ds \<Longrightarrow> key_compare D ns title False (ds ! i) = 0 \<Longrightarrow> r = (True, i)"
    and title: "\<And>i. r = (True, i) \<Longrightarrow> i < length ds \<and> title_compare D False title (ds ! i) = 0"
    and miss: "\<And>u. r = (False, u) \<Longrightarrow> 0 < u \<and> u \<le> length ds
            \<and> (\<forall>j. u \<le> j \<and> j < length ds \<longrightarrow> key_compare D ns title False (ds ! j) < 0)
            \<and> (\<forall>i. 0 < i \<and> i < u \<longrightarrow> 0 < key_compare D ns title False (ds ! i))"
    by blast
  have 1: "\<forall>i<length ds. entry_key D (ds ! i) = (ns, title) \<longrightarrow> r = (True, i)"
    using found by (simp add: kc(1))
  have 2: "\<forall>i. r = (True, i) \<longrightarrow> i < length ds \<and> getTitle D (ds ! i) = title"
    using title by (auto simp: title_compare_def eq)
  have 3: "\<forall>u. r = (False, u) \<longrightarrow> 0 < u \<and> u \<le> length ds
            \<and> (\<forall>j. u \<le> j \<and> j < length ds \<longrightarrow> key_less D (ns, title) (entry_key D (ds ! j)))
            \<and> (\<forall>i. 0 < i \<and> i < u \<longrightarrow> key_less D (entry_key D (ds ! i)) (ns, title))"
    using miss unfolding kc(2,3) by blast
  from r 1 2 3 show ?thesis
    by blast
qed


lemma three_way_example: "three_way (compare example_ops)"
  by (auto simp: three_way_def example_ops_def)

lemma findArticle_sorted_by_key_example:
  "\<exists>r f'. findArticle example_ops (CHR ''A'') ''cow'' False spec_example = Inr (r, f')
     \<and> (\<forall>u. r = (False, u) \<longrightarrow> 0 < u \<and> u \<le> length spec_entries
            \<and> (\<forall>j. u \<le> j \<and> j < length spec_entries \<longrightarrow>
                  key_less example_ops (CHR ''A'', ''cow'') (entry_key example_ops (spec_entries ! j)))
            \<and> (\<forall>i. 0 < i \<and> i < u \<longrightarrow>
                  key_less example_ops (entry_key example_ops (spec_entries ! i)) (CHR ''A'', ''cow'')))"
proof -
  have a: "archive example_ops spec_example spec_entries"
    by code_simp
  have s: "sorted_by_key example_ops spec_entries"
    by code_simp
  have c: "namespaces spec_example = []"
    by code_simp
  have p: "CHR ''A'' \<in> set (map (getNamespace example_ops) spec_entries)"
    by code_simp
  from findArticle_sorted_by_key[OF a s three_way_example c p, of "''cow''"] show ?thesis
    by blast
qed

text \<open>
  Claim C1. After its loop \<^verbatim>\<open>findArticle\<close> compares the title of the entry at \<^verbatim>\<open>l\<close>
  and not its namespace. In the archive of the specification's example, which is
  readable and sorted by key, no entry has the key \<open>(B, dog)\<close>; the lookup of that key
  in the byte-exact mode returns found with index 2, the entry \<open>(A, dog)\<close>.
\<close>

theorem findArticle_title_only_match:
  "archive example_ops spec_example spec_entries
   \<and> sorted_by_key example_ops spec_entries
   \<and> map_sum id fst (findArticle example_ops (CHR ''B'') ''dog'' False spec_example)
       = Inr (True, 2)
   \<and> entry_key example_ops (spec_entries ! 2) = (CHR ''A'', ''dog'')
   \<and> (CHR ''B'', ''dog'') \<notin> set (map (entry_key example_ops) spec_entries)"
  by code_simp

text \<open>
  Claim C2. A key below the first entry of the table is reported with index 1. In the
  same archive namespace \<open>A\<close> is present and has no title \<open>ant\<close>; the key \<open>(A, ant)\<close>
  is less than the key of entry 0, so index 0 is the smallest index with a greater key;
  the lookup returns not-found with index 1.
\<close>

theorem findArticle_before_first_entry:
  "archive example_ops spec_example spec_entries
   \<and> sorted_by_key example_ops spec_entries
   \<and> CHR ''A'' \<in> set (map (getNamespace example_ops) spec_entries)
   \<and> (CHR ''A'', ''ant'') \<notin> set (map (entry_key example_ops) spec_entries)
   \<and> key_less example_ops (CHR ''A'', ''ant'') (entry_key example_ops (spec_entries ! 0))
   \<and> map_sum id fst (findArticle example_ops (CHR ''A'') ''ant'' False spec_example)
       = Inr (False, 1)"
  by code_simp

end
